theory Spec2Isabelle
  imports Main "HOL-Library.Sublist" "HOL-Library.Log_Nat"
begin

section \<open>Characters and strings\<close>

text \<open>
  Text is a list of 8-bit characters read as ASCII code points. The classes
  \<^verbatim>\<open>\d\<close>, \<^verbatim>\<open>\s\<close>, \<^verbatim>\<open>\w\<close> and the case mappings below are those of
  Python's \<^verbatim>\<open>str\<close> on the ASCII range; text with code points beyond ASCII
  is outside this development.
\<close>

definition ascii_upper :: string where
  "ascii_upper = ''ABCDEFGHIJKLMNOPQRSTUVWXYZ''"

definition ascii_lower :: string where
  "ascii_lower = ''abcdefghijklmnopqrstuvwxyz''"

definition lower_chr :: "char \<Rightarrow> char" where
  "lower_chr c = (case map_of (zip ascii_upper ascii_lower) c of Some d \<Rightarrow> d | None \<Rightarrow> c)"

definition upper_chr :: "char \<Rightarrow> char" where
  "upper_chr c = (case map_of (zip ascii_lower ascii_upper) c of Some d \<Rightarrow> d | None \<Rightarrow> c)"

text \<open>\<^verbatim>\<open>str.lower()\<close> and \<^verbatim>\<open>str.upper()\<close>.\<close>

definition lower :: "string \<Rightarrow> string" where
  "lower s = map lower_chr s"

definition upper :: "string \<Rightarrow> string" where
  "upper s = map upper_chr s"

definition is_digit :: "char \<Rightarrow> bool" where
  "is_digit c = (c \<in> set ''0123456789'')"

definition is_alpha :: "char \<Rightarrow> bool" where
  "is_alpha c = (c \<in> set (ascii_upper @ ascii_lower))"

text \<open>\<^verbatim>\<open>\w\<close>: letters, digits and the underscore.\<close>

definition is_word :: "char \<Rightarrow> bool" where
  "is_word c = (is_alpha c \<or> is_digit c \<or> c = CHR ''_'')"

text \<open>
  \<^verbatim>\<open>\s\<close> and \<^verbatim>\<open>str.strip()\<close>: tab, line feed, vertical tab, form feed,
  carriage return, the four separators 0x1C..0x1F, and the space.
\<close>

definition is_space :: "char \<Rightarrow> bool" where
  "is_space c = (c \<in> set [CHR 0x09, CHR 0x0A, CHR 0x0B, CHR 0x0C, CHR 0x0D,
                             CHR 0x1C, CHR 0x1D, CHR 0x1E, CHR 0x1F, CHR 0x20])"

definition strip :: "string \<Rightarrow> string" where
  "strip s = rev (dropWhile is_space (rev (dropWhile is_space s)))"

text \<open>Python's \<^verbatim>\<open>pat in s\<close> on strings.\<close>

fun is_in :: "string \<Rightarrow> string \<Rightarrow> bool" where
  "is_in pat [] = (pat = [])"
| "is_in pat (c # cs) = (prefix pat (c # cs) \<or> is_in pat cs)"

text \<open>
  \<^verbatim>\<open>str.splitlines()\<close>: a line ends at LF, CR, CR LF, VT, FF, or one of the
  separators 0x1C, 0x1D, 0x1E; the line ends are dropped, and no empty last
  line is produced.
\<close>

definition is_linebreak :: "char \<Rightarrow> bool" where
  "is_linebreak c = (c \<in> set [CHR 0x0A, CHR 0x0D, CHR 0x0B, CHR 0x0C, CHR 0x1C, CHR 0x1D, CHR 0x1E])"

fun splitlines_from :: "string \<Rightarrow> string \<Rightarrow> string list" where
  "splitlines_from acc [] = (if acc = [] then [] else [acc])"
| "splitlines_from acc [c] = (if is_linebreak c then [acc] else [acc @ [c]])"
| "splitlines_from acc (c # d # cs) =
     (if c = CHR 0x0D \<and> d = CHR 0x0A then acc # splitlines_from [] cs
      else if is_linebreak c then acc # splitlines_from [] (d # cs)
      else splitlines_from (acc @ [c]) (d # cs))"

definition splitlines :: "string \<Rightarrow> string list" where
  "splitlines s = splitlines_from [] s"

text \<open>\<^verbatim>\<open>line.split("//")\<close>: cut at every occurrence of the separator, left to right.\<close>

fun split_dslash_from :: "string \<Rightarrow> string \<Rightarrow> string list" where
  "split_dslash_from acc [] = [acc]"
| "split_dslash_from acc [c] = [acc @ [c]]"
| "split_dslash_from acc (c # d # cs) =
     (if c = CHR ''/'' \<and> d = CHR ''/'' then acc # split_dslash_from [] cs
      else split_dslash_from (acc @ [c]) (d # cs))"

definition split_dslash :: "string \<Rightarrow> string list" where
  "split_dslash s = split_dslash_from [] s"

text \<open>\<^verbatim>\<open>sep.join(xs)\<close>.\<close>

fun join :: "string \<Rightarrow> string list \<Rightarrow> string" where
  "join sep [] = []"
| "join sep [x] = x"
| "join sep (x # y # ys) = x @ sep @ join sep (y # ys)"

text \<open>\<^verbatim>\<open>int(s)\<close> on a string of decimal digits.\<close>

definition digit_val :: "char \<Rightarrow> int" where
  "digit_val c = (case map_of (zip ''0123456789'' [0, 1, 2, 3, 4, 5, 6, 7, 8, 9]) c of
                    Some n \<Rightarrow> n | None \<Rightarrow> 0)"

definition int_of_digits :: "string \<Rightarrow> int" where
  "int_of_digits s = foldl (\<lambda>n c. 10 * n + digit_val c) 0 s"

section \<open>Regular expressions\<close>

text \<open>
  The patterns of the program, as a datatype, and a backtracking matcher in the
  order of Python's \<^verbatim>\<open>re\<close>: alternatives left to right, greedy repetitions
  longest first, lazy ones shortest first. Every repetition in the program
  repeats a single character class, so \<open>Rep\<close> takes a class.
\<close>

datatype regex =
    Eps
  | Cls "char \<Rightarrow> bool"
  | Lit string
  | Seq regex regex
  | Alt regex regex
  | Opt regex
  | Rep "char \<Rightarrow> bool" nat "nat option" bool
  | Grp nat regex
  | WordB
  | Bol
  | Eol

text \<open>
  A matcher state: the character before the current position (\<open>None\<close> at the
  start of the text), the text still to read, and the groups captured so far.
\<close>

type_synonym mstate = "char option \<times> string \<times> (nat \<times> string) list"

definition cls_match :: "bool \<Rightarrow> (char \<Rightarrow> bool) \<Rightarrow> char \<Rightarrow> bool" where
  "cls_match ic P c = (P c \<or> (ic \<and> (P (lower_chr c) \<or> P (upper_chr c))))"

definition chr_eq :: "bool \<Rightarrow> char \<Rightarrow> char \<Rightarrow> bool" where
  "chr_eq ic p c = (if ic then lower_chr p = lower_chr c else p = c)"

definition advance :: "nat \<Rightarrow> char option \<Rightarrow> string \<Rightarrow> char option" where
  "advance n prev rest = (if n = 0 then prev else Some (rest ! (n - 1)))"

definition word_opt :: "char option \<Rightarrow> bool" where
  "word_opt x = (case x of None \<Rightarrow> False | Some c \<Rightarrow> is_word c)"

definition next_chr :: "string \<Rightarrow> char option" where
  "next_chr rest = (case rest of [] \<Rightarrow> None | c # _ \<Rightarrow> Some c)"

definition rep_counts :: "nat \<Rightarrow> nat option \<Rightarrow> bool \<Rightarrow> nat \<Rightarrow> nat list" where
  "rep_counts lo hi greedy run =
     (let top = (case hi of None \<Rightarrow> run | Some h \<Rightarrow> min h run);
          ns = [lo ..< Suc top]
      in if greedy then rev ns else ns)"

fun rmatch :: "bool \<Rightarrow> regex \<Rightarrow> mstate \<Rightarrow> mstate list" where
  "rmatch ic Eps st = [st]"
| "rmatch ic (Cls P) (prev, rest, caps) =
     (case rest of [] \<Rightarrow> []
      | c # cs \<Rightarrow> if cls_match ic P c then [(Some c, cs, caps)] else [])"
| "rmatch ic (Lit l) (prev, rest, caps) =
     (if length l \<le> length rest \<and> list_all2 (chr_eq ic) l (take (length l) rest)
      then [(advance (length l) prev rest, drop (length l) rest, caps)] else [])"
| "rmatch ic (Seq r1 r2) st = concat (map (rmatch ic r2) (rmatch ic r1 st))"
| "rmatch ic (Alt r1 r2) st = rmatch ic r1 st @ rmatch ic r2 st"
| "rmatch ic (Opt r) st = rmatch ic r st @ [st]"
| "rmatch ic (Rep P lo hi greedy) (prev, rest, caps) =
     map (\<lambda>n. (advance n prev rest, drop n rest, caps))
       (rep_counts lo hi greedy (length (takeWhile (cls_match ic P) rest)))"
| "rmatch ic (Grp k r) (prev, rest, caps) =
     map (\<lambda>(prev', rest', caps'). (prev', rest', (k, take (length rest - length rest') rest) # caps'))
       (rmatch ic r (prev, rest, caps))"
| "rmatch ic WordB (prev, rest, caps) =
     (if word_opt prev \<noteq> word_opt (next_chr rest) then [(prev, rest, caps)] else [])"
| "rmatch ic Bol (prev, rest, caps) = (if prev = None then [(prev, rest, caps)] else [])"
| "rmatch ic Eol (prev, rest, caps) =
     (if rest = [] \<or> rest = [CHR 0x0A] then [(prev, rest, caps)] else [])"

definition seqs :: "regex list \<Rightarrow> regex" where
  "seqs rs = foldr Seq rs Eps"

text \<open>The first match of the pattern at the given position, if any.\<close>

definition match_at :: "bool \<Rightarrow> regex \<Rightarrow> char option \<Rightarrow> string \<Rightarrow> (nat \<times> string) list option" where
  "match_at ic r prev rest =
     (case rmatch ic r (prev, rest, []) of [] \<Rightarrow> None | (_, _, caps) # _ \<Rightarrow> Some caps)"

text \<open>\<^verbatim>\<open>re.search\<close>: the first match at the leftmost position that has one.\<close>

fun search_from :: "bool \<Rightarrow> regex \<Rightarrow> char option \<Rightarrow> string \<Rightarrow> (nat \<times> string) list option" where
  "search_from ic r prev [] = match_at ic r prev []"
| "search_from ic r prev (c # cs) =
     (case match_at ic r prev (c # cs) of Some m \<Rightarrow> Some m
      | None \<Rightarrow> search_from ic r (Some c) cs)"

definition re_search :: "bool \<Rightarrow> regex \<Rightarrow> string \<Rightarrow> (nat \<times> string) list option" where
  "re_search ic r s = search_from ic r None s"

text \<open>\<^verbatim>\<open>pattern.match\<close>: a match at the start of the text only.\<close>

definition re_match :: "bool \<Rightarrow> regex \<Rightarrow> string \<Rightarrow> (nat \<times> string) list option" where
  "re_match ic r s = match_at ic r None s"

text \<open>
  \<^verbatim>\<open>m.group(k)\<close>. Every group of the program's patterns takes part in every
  match of its pattern, so the value for a group that did not is never read.
\<close>

definition group :: "nat \<Rightarrow> (nat \<times> string) list \<Rightarrow> string" where
  "group k m = (case map_of m k of Some g \<Rightarrow> g | None \<Rightarrow> [])"

definition found :: "'a option \<Rightarrow> bool" where
  "found m = (m \<noteq> None)"

definition alts :: "regex list \<Rightarrow> regex" where
  "alts rs = foldr Alt rs (Cls (\<lambda>_. False))"

section \<open>Floating point\<close>

text \<open>
  \<^verbatim>\<open>float\<close> is IEEE 754 binary64. Only values that are not negative occur. A
  finite value is a pair of a mantissa and an exponent, \<open>m * 2 ^ p\<close>;
  conversions and products round to nearest, ties to even, with 53 bits and
  the least exponent \<open>-1074\<close>, and overflow to infinity.
\<close>

datatype pyfloat = Finite int int | Infinity

datatype error = OverflowError | OSError string

definition scaled_le :: "int \<Rightarrow> int \<Rightarrow> int \<Rightarrow> bool" where
  \<comment> \<open>\<open>b * 2 ^ e \<le> a\<close>\<close>
  "scaled_le b e a = (if 0 \<le> e then b * 2 ^ nat e \<le> a else b \<le> a * 2 ^ nat (- e))"

definition floor_log2 :: "int \<Rightarrow> int \<Rightarrow> int" where
  \<comment> \<open>the \<open>e\<close> with \<open>2 ^ e \<le> a / b < 2 ^ (e + 1)\<close>, for positive \<open>a\<close> and \<open>b\<close>\<close>
  "floor_log2 a b =
     (let e = bitlen a - bitlen b
      in if scaled_le b e a then e else e - 1)"

definition round_half_even :: "int \<Rightarrow> int \<Rightarrow> int" where
  "round_half_even a b =
     (let q = a div b; r = a mod b
      in if 2 * r < b then q else if b < 2 * r then q + 1
         else if even q then q else q + 1)"

definition to_double :: "int \<Rightarrow> int \<Rightarrow> pyfloat" where
  \<comment> \<open>the binary64 value nearest to \<open>a / b\<close>, for positive \<open>b\<close>\<close>
  "to_double a b =
     (if a = 0 then Finite 0 0
      else let p = max (floor_log2 a b) (- 1022) - 52;
               m = (if 0 \<le> p then round_half_even a (b * 2 ^ nat p)
                    else round_half_even (a * 2 ^ nat (- p)) b)
           in if 971 < p \<or> (p = 971 \<and> 2 ^ 53 \<le> m) then Infinity else Finite m p)"

text \<open>\<^verbatim>\<open>float(s)\<close> on a string of the form digits, point, digits.\<close>

definition float_of_str :: "string \<Rightarrow> pyfloat" where
  "float_of_str s =
     (let ip = takeWhile (\<lambda>c. c \<noteq> CHR ''.'') s; fp = drop (Suc (length ip)) s
      in to_double (int_of_digits (ip @ fp)) (10 ^ length fp))"

text \<open>\<^verbatim>\<open>x * n\<close> for a float \<open>x\<close> and an integer \<open>n\<close> that binary64 holds exactly.\<close>

definition fmul :: "pyfloat \<Rightarrow> int \<Rightarrow> pyfloat" where
  "fmul x n =
     (case x of Infinity \<Rightarrow> Infinity
      | Finite m p \<Rightarrow> if 0 \<le> p then to_double (m * n * 2 ^ nat p) 1
                      else to_double (m * n) (2 ^ nat (- p)))"

text \<open>\<^verbatim>\<open>int(x)\<close> on a float: truncation; infinity raises.\<close>

definition int_of_float :: "pyfloat \<Rightarrow> error + int" where
  "int_of_float x =
     (case x of Infinity \<Rightarrow> Inl OverflowError
      | Finite m p \<Rightarrow> Inr (if 0 \<le> p then m * 2 ^ nat p else m div 2 ^ nat (- p)))"

section \<open>The header pattern\<close>

definition any_space :: regex where
  \<comment> \<open>\<^verbatim>\<open>\s*\<close>\<close>
  "any_space = Rep is_space 0 None True"

definition digits_n :: "nat \<Rightarrow> regex" where
  \<comment> \<open>\<^verbatim>\<open>\d{n}\<close>\<close>
  "digits_n n = Rep is_digit n (Some n) True"

definition digits_from :: "nat \<Rightarrow> regex" where
  \<comment> \<open>\<^verbatim>\<open>\d{n,}\<close>; \<^verbatim>\<open>\d+\<close> is \<open>digits_from 1\<close>\<close>
  "digits_from n = Rep is_digit n None True"

definition HEADER_RE :: regex where
  "HEADER_RE = seqs
     [Bol, Lit ''['', Grp 1 (Rep (\<lambda>c. is_digit c \<or> c = CHR ''/'') 1 None True), Lit '','', any_space,
      Grp 2 (seqs [Rep is_digit 1 (Some 2) True, Lit '':'', digits_n 2,
                   Opt (seqs [Lit '':'', digits_n 2]), any_space,
                   Rep (\<lambda>c. c \<in> set ''APMapm'') 2 (Some 2) True]),
      Lit '']'', any_space,
      Grp 3 (Rep (\<lambda>c. c \<noteq> CHR '':'') 1 None False), Lit '':'', any_space,
      Grp 4 (Rep (\<lambda>c. c \<noteq> CHR 0x0A) 0 None True), Eol]"

text \<open>\<^verbatim>\<open>HEADER_RE.match(line)\<close> with its four groups: date, time, sender, body.\<close>

definition header_match :: "string \<Rightarrow> (string \<times> string \<times> string \<times> string) option" where
  "header_match line =
     (case re_match False HEADER_RE line of None \<Rightarrow> None
      | Some h \<Rightarrow> Some (group 1 h, group 2 h, group 3 h, group 4 h))"

section \<open>The attribute extractors\<close>

definition decimal :: regex where
  \<comment> \<open>\<^verbatim>\<open>(\d+\.\d+)\<close>\<close>
  "decimal = Grp 1 (seqs [digits_from 1, Lit ''.'', digits_from 1])"

definition currency_code :: regex where
  \<comment> \<open>\<^verbatim>\<open>(?:hkd|usd|eur|chf|usdt)\<close>\<close>
  "currency_code = alts [Lit ''hkd'', Lit ''usd'', Lit ''eur'', Lit ''chf'', Lit ''usdt'']"

definition price_decimal_k :: regex where
  "price_decimal_k = seqs [decimal, any_space, Lit ''k'']"

definition price_decimal_m :: regex where
  "price_decimal_m = seqs [decimal, any_space, Lit ''m'']"

definition price_int_k :: regex where
  "price_int_k = seqs [Grp 1 (digits_from 1), any_space, Lit ''k'', WordB]"

definition price_int_m :: regex where
  "price_int_m = seqs [Grp 1 (digits_from 1), any_space, Lit ''m'', WordB]"

definition price_decimal_mill :: regex where
  "price_decimal_mill = seqs [decimal, any_space, Lit ''mill'']"

definition price_code_sep :: regex where
  "price_code_sep = seqs [currency_code, Cls (\<lambda>c. c \<in> set '': ''), any_space, Grp 1 (digits_from 5)]"

definition price_code :: regex where
  "price_code = seqs [currency_code, Grp 1 (digits_from 5)]"

definition price_bare :: regex where
  "price_bare = seqs [WordB, Grp 1 (digits_from 6), WordB]"

definition parse_price :: "string \<Rightarrow> error + int" where
  "parse_price text =
     (let t = lower (filter (\<lambda>c. c \<noteq> CHR '','') text) in
      case re_search False price_decimal_k t of
        Some m \<Rightarrow> int_of_float (fmul (float_of_str (group 1 m)) 1000) | None \<Rightarrow>
      case re_search False price_decimal_m t of
        Some m \<Rightarrow> int_of_float (fmul (float_of_str (group 1 m)) 1000000) | None \<Rightarrow>
      case re_search False price_int_k t of
        Some m \<Rightarrow> Inr (int_of_digits (group 1 m) * 1000) | None \<Rightarrow>
      case re_search False price_int_m t of
        Some m \<Rightarrow> Inr (int_of_digits (group 1 m) * 1000000) | None \<Rightarrow>
      case re_search False price_decimal_mill t of
        Some m \<Rightarrow> int_of_float (fmul (float_of_str (group 1 m)) 1000000) | None \<Rightarrow>
      case re_search False price_code_sep t of
        Some m \<Rightarrow> Inr (int_of_digits (group 1 m)) | None \<Rightarrow>
      case re_search False price_code t of
        Some m \<Rightarrow> Inr (int_of_digits (group 1 m)) | None \<Rightarrow>
      case re_search False price_bare t of
        Some m \<Rightarrow> Inr (int_of_digits (group 1 m)) | None \<Rightarrow>
      Inr 0)"

text \<open>The euro and pound signs, as their UTF-8 bytes.\<close>

definition euro_sign :: string where
  "euro_sign = [CHR 0xE2, CHR 0x82, CHR 0xAC]"

definition pound_sign :: string where
  "pound_sign = [CHR 0xC2, CHR 0xA3]"

definition parse_currency :: "string \<Rightarrow> string" where
  "parse_currency text =
     (let t = lower text in
      if is_in ''usdt'' t then ''USDT''
      else if is_in ''usd'' t \<or> is_in ''$'' t then ''USD''
      else if is_in ''eur'' t \<or> is_in euro_sign t then ''EUR''
      else if is_in ''chf'' t then ''CHF''
      else if is_in ''gbp'' t \<or> is_in pound_sign t then ''GBP''
      else ''HKD'')"

definition year20 :: regex where
  \<comment> \<open>\<^verbatim>\<open>(20\d{2})\<close>\<close>
  "year20 = Grp 1 (seqs [Lit ''20'', digits_n 2])"

definition year_bare :: regex where
  "year_bare = seqs [WordB, year20, WordB]"

definition year_slash :: regex where
  "year_slash = seqs [year20, Lit ''/'', digits_n 2]"

definition year_short :: regex where
  "year_short = seqs [WordB, Grp 1 (Rep is_digit 1 (Some 2) True), alts [Lit ''y'', Lit ''Y''], WordB]"

definition year_word :: regex where
  "year_word = seqs [year20, alts [Lit ''year'', Lit ''yr'']]"

text \<open>\<^verbatim>\<open>str(n)\<close> and \<^verbatim>\<open>f"{n:02d}"\<close> for an integer that is not negative.\<close>

definition digit_chr :: "int \<Rightarrow> char" where
  "digit_chr n = ''0123456789'' ! nat (n mod 10)"

function show_int :: "int \<Rightarrow> string" where
  "show_int n = (if n < 10 then [digit_chr n] else show_int (n div 10) @ [digit_chr n])"
  by pat_completeness auto
termination
  by (relation "measure nat") auto

declare show_int.simps [simp del]

definition pad2 :: "int \<Rightarrow> string" where
  "pad2 n = (if n < 10 then CHR ''0'' # show_int n else show_int n)"

definition parse_year :: "string \<Rightarrow> string" where
  "parse_year text =
     (case re_search False year_bare text of Some m \<Rightarrow> group 1 m | None \<Rightarrow>
      case re_search False year_slash text of Some m \<Rightarrow> group 1 m | None \<Rightarrow>
      case re_search True year_short text of
        Some m \<Rightarrow> (let year_val = int_of_digits (group 1 m)
                   in if year_val < 50 then ''20'' @ pad2 year_val else ''19'' @ pad2 year_val)
      | None \<Rightarrow>
      case re_search True year_word text of Some m \<Rightarrow> group 1 m | None \<Rightarrow>
      [])"

definition whole_word :: "string \<Rightarrow> regex" where
  \<comment> \<open>\<^verbatim>\<open>\b\<close>, the literal text, \<^verbatim>\<open>\b\<close>\<close>
  "whole_word w = seqs [WordB, Lit w, WordB]"

definition variants :: "string list" where
  "variants = [''BLUE'', ''BLACK'', ''GREEN'', ''WHITE'', ''RED'', ''GREY'', ''GRAY'',
               ''JUB'', ''OYS'', ''RG'', ''TI'', ''WG'']"

fun first_variant :: "string list \<Rightarrow> string \<Rightarrow> string" where
  "first_variant [] t = []"
| "first_variant (v # vs) t =
     (if found (re_search False (whole_word v) t) then (if v = ''GRAY'' then ''GREY'' else v)
      else first_variant vs t)"

definition parse_variant :: "string \<Rightarrow> string" where
  "parse_variant text = first_variant variants (upper text)"

definition parse_condition :: "string \<Rightarrow> string" where
  "parse_condition text =
     (let t = lower text in
      if is_in ''like new'' t then ''Like New''
      else if is_in ''used'' t then ''Used''
      else if is_in ''full set'' t \<or> is_in ''fullset'' t then ''Full Set''
      else if is_in ''mint'' t then ''Mint''
      else if is_in ''new'' t then ''New''
      else if is_in ''only watch'' t then ''Only Watch''
      else [])"

section \<open>Messages and the tokenizer\<close>

record message =
  date :: string
  time :: string
  sender :: string
  body :: string

text \<open>
  The loop of \<^verbatim>\<open>process_chat_file\<close> over the lines of the transcript, with
  its two variables \<^verbatim>\<open>msgs\<close> and \<^verbatim>\<open>curr\<close> (here \<open>cur\<close>); the last equation is the
  \<^verbatim>\<open>if curr: msgs.append(curr)\<close> after the loop.
\<close>

fun tokenize_loop :: "message list \<Rightarrow> message option \<Rightarrow> string list \<Rightarrow> message list" where
  "tokenize_loop msgs cur [] = (case cur of None \<Rightarrow> msgs | Some m \<Rightarrow> msgs @ [m])"
| "tokenize_loop msgs cur (line # ls) =
     (case header_match line of
        Some (d, t, s, b) \<Rightarrow>
          tokenize_loop (case cur of None \<Rightarrow> msgs | Some m \<Rightarrow> msgs @ [m])
            (Some \<lparr>date = d, time = t, sender = s, body = b\<rparr>) ls
      | None \<Rightarrow>
          (case cur of None \<Rightarrow> tokenize_loop msgs None ls
           | Some m \<Rightarrow> tokenize_loop msgs (Some (m\<lparr>body := body m @ [CHR 0x0A] @ line\<rparr>)) ls))"

definition tokenize :: "string \<Rightarrow> message list" where
  "tokenize content = tokenize_loop [] None (splitlines content)"

section \<open>The segment extractor\<close>

text \<open>\<^verbatim>\<open>re.search(rf'\b{re.escape(pid)}\b', s, re.IGNORECASE)\<close>.\<close>

definition contains_pid :: "string \<Rightarrow> string \<Rightarrow> bool" where
  "contains_pid pid s = found (re_search True (whole_word pid) s)"

definition split_segments :: "string \<Rightarrow> string \<Rightarrow> string list" where
  "split_segments body_text pid =
     concat (map (\<lambda>line. filter (contains_pid pid) (map strip (split_dslash line)))
               (splitlines body_text))"

definition ref_code :: regex where
  \<comment> \<open>\<^verbatim>\<open>\b[A-Z0-9]{4,}/[A-Z0-9\-]+\b\<close>\<close>
  "ref_code = seqs
     [WordB, Rep (\<lambda>c. c \<in> set ascii_upper \<or> is_digit c) 4 None True, Lit ''/'',
      Rep (\<lambda>c. c \<in> set ascii_upper \<or> is_digit c \<or> c = CHR ''-'') 1 None True, WordB]"

text \<open>The test that ends the scan of the following lines.\<close>

definition stops_scan :: "string \<Rightarrow> string \<Rightarrow> bool" where
  "stops_scan pid follow_line =
     (found (re_search True ref_code follow_line) \<and> \<not> contains_pid pid follow_line)"

text \<open>\<^verbatim>\<open>parse_price(line) > 0 or parse_year(line)\<close>: the price is computed first.\<close>

definition price_or_year :: "string \<Rightarrow> error + bool" where
  "price_or_year line =
     (case parse_price line of Inl e \<Rightarrow> Inl e
      | Inr p \<Rightarrow> Inr (0 < p \<or> parse_year line \<noteq> []))"

text \<open>\<^verbatim>\<open>parse_year(follow_line) or parse_price(follow_line) > 0\<close>: the year is computed first.\<close>

definition year_or_price :: "string \<Rightarrow> error + bool" where
  "year_or_price follow_line =
     (if parse_year follow_line \<noteq> [] then Inr True
      else case parse_price follow_line of Inl e \<Rightarrow> Inl e | Inr p \<Rightarrow> Inr (0 < p))"

text \<open>The inner loop of \<^verbatim>\<open>attach_following\<close> over the lines that follow \<open>line\<close>.\<close>

fun scan_following :: "string \<Rightarrow> string \<Rightarrow> string list \<Rightarrow> error + string list" where
  "scan_following pid line [] = Inr []"
| "scan_following pid line (follow_line # fs) =
     (if stops_scan pid follow_line then Inr []
      else case year_or_price follow_line of
             Inl e \<Rightarrow> Inl e
           | Inr True \<Rightarrow>
               (case scan_following pid line fs of Inl e \<Rightarrow> Inl e
                | Inr rs \<Rightarrow> Inr ((line @ '' // '' @ follow_line) # rs))
           | Inr False \<Rightarrow> scan_following pid line fs)"

text \<open>
  The outer loop, on the lines from index \<open>i\<close> on: \<open>rest\<close> is
  \<^verbatim>\<open>lines[i+1:]\<close>, and \<^verbatim>\<open>range(i+1, min(i+6, len(lines)))\<close> runs over its first
  five elements.
\<close>

fun attach_loop :: "string \<Rightarrow> string list \<Rightarrow> error + string list" where
  "attach_loop pid [] = Inr []"
| "attach_loop pid (line # rest) =
     (if contains_pid pid line then
        (case price_or_year line of
           Inl e \<Rightarrow> Inl e
         | Inr True \<Rightarrow> attach_loop pid rest
         | Inr False \<Rightarrow>
             (case scan_following pid line (take 5 rest) of Inl e \<Rightarrow> Inl e
              | Inr rs \<Rightarrow>
                  (case attach_loop pid rest of Inl e \<Rightarrow> Inl e
                   | Inr rs' \<Rightarrow> Inr (rs @ rs'))))
      else attach_loop pid rest)"

definition body_lines :: "string \<Rightarrow> string list" where
  \<comment> \<open>\<^verbatim>\<open>[l.strip() for l in body.splitlines() if l.strip()]\<close>\<close>
  "body_lines body_text = map strip (filter (\<lambda>l. strip l \<noteq> []) (splitlines body_text))"

definition attach_following :: "string \<Rightarrow> string \<Rightarrow> error + string list" where
  "attach_following body_text pid = attach_loop pid (body_lines body_text)"

fun dedupe :: "string set \<Rightarrow> string list \<Rightarrow> string list" where
  "dedupe seen [] = []"
| "dedupe seen (e # es) =
     (if e \<in> seen then dedupe seen es else e # dedupe (insert e seen) es)"

definition extract_message_entries :: "string \<Rightarrow> string \<Rightarrow> error + string list" where
  "extract_message_entries body_text pid =
     (case attach_following body_text pid of Inl e \<Rightarrow> Inl e
      | Inr att \<Rightarrow> Inr (dedupe {} (split_segments body_text pid @ att)))"

section \<open>Assembly\<close>

record row =
  Chat :: string
  Date :: string
  Time :: string
  Sender :: string
  PID :: string
  Year :: string
  Variant :: string
  Condition :: string
  Price :: int
  Currency :: string
  Raw_Line :: string
  Remark :: string

definition noise :: regex where
  \<comment> \<open>\<^verbatim>\<open>PHOTO|omitted|attached:\<close>\<close>
  "noise = alts [Lit ''PHOTO'', Lit ''omitted'', Lit ''attached:'']"

definition is_noise :: "string \<Rightarrow> bool" where
  "is_noise raw = found (re_search True noise raw)"

text \<open>
  The loops of \<^verbatim>\<open>process_chat_file\<close> return the rows appended so far, and the
  exception that ended them, if one did: the \<^verbatim>\<open>except\<close> clause keeps the rows.
\<close>

fun rows_of_raws :: "string \<Rightarrow> string \<Rightarrow> message \<Rightarrow> string list \<Rightarrow> row list \<times> error option" where
  "rows_of_raws chat_name pid m [] = ([], None)"
| "rows_of_raws chat_name pid m (raw # raws) =
     (if is_noise raw then rows_of_raws chat_name pid m raws
      else case parse_price raw of
             Inl e \<Rightarrow> ([], Some e)
           | Inr price \<Rightarrow>
               (case rows_of_raws chat_name pid m raws of
                  (rows, err) \<Rightarrow>
                    (\<lparr>Chat = chat_name, Date = date m, Time = time m, Sender = sender m,
                      PID = upper pid, Year = parse_year raw, Variant = parse_variant raw,
                      Condition = parse_condition raw, Price = price,
                      Currency = parse_currency raw, Raw_Line = raw, Remark = []\<rparr> # rows, err)))"

fun rows_of_msgs :: "string \<Rightarrow> string \<Rightarrow> message list \<Rightarrow> row list \<times> error option" where
  "rows_of_msgs chat_name pid [] = ([], None)"
| "rows_of_msgs chat_name pid (m # ms) =
     (if \<not> is_in (lower pid) (lower (body m)) then rows_of_msgs chat_name pid ms
      else case extract_message_entries (body m) pid of
             Inl e \<Rightarrow> ([], Some e)
           | Inr raws \<Rightarrow>
               (case rows_of_raws chat_name pid m raws of
                  (rows, Some e) \<Rightarrow> (rows, Some e)
                | (rows, None) \<Rightarrow>
                    (case rows_of_msgs chat_name pid ms of
                       (rows', err) \<Rightarrow> (rows @ rows', err))))"

text \<open>
  A transcript file: the path as text, its \<^verbatim>\<open>name\<close> and \<^verbatim>\<open>stem\<close>, and what
  opening and reading it gives, the content or the exception.
\<close>

record chat_file =
  path_str :: string
  name :: string
  stem :: string
  read_result :: "error + string"

text \<open>What the logger is called with.\<close>

datatype log_entry =
    Processing string nat
  | Found_Matches nat string
  | Error_Processing string error
  | Traceback error
  | File_Name string
  | Match_Count nat

definition log_if :: "bool \<Rightarrow> log_entry list \<Rightarrow> log_entry list" where
  "log_if logger entries = (if logger then entries else [])"

text \<open>The argument \<open>logger\<close> says whether a logger was passed.\<close>

definition process_chat_file :: "chat_file \<Rightarrow> string \<Rightarrow> bool \<Rightarrow> row list \<times> log_entry list" where
  "process_chat_file f pid logger =
     (case read_result f of
        Inl e \<Rightarrow> ([], log_if logger [Error_Processing (path_str f) e, Traceback e])
      | Inr content \<Rightarrow>
          (let msgs = tokenize content;
               started = log_if logger [Processing (stem f) (length msgs)]
           in case rows_of_msgs (stem f) pid msgs of
                (rows, None) \<Rightarrow> (rows, started @ log_if logger [Found_Matches (length rows) (stem f)])
              | (rows, Some e) \<Rightarrow>
                  (rows, started @ log_if logger [Error_Processing (path_str f) e, Traceback e])))"

text \<open>The loop of \<^verbatim>\<open>extraction_thread\<close> over the transcript files.\<close>

fun extraction_loop :: "chat_file list \<Rightarrow> string \<Rightarrow> row list \<times> log_entry list" where
  "extraction_loop [] pid = ([], [])"
| "extraction_loop (f # fs) pid =
     (case process_chat_file f pid True of
        (entries, logged) \<Rightarrow>
          (case extraction_loop fs pid of
             (all_entries, logged') \<Rightarrow>
               (entries @ all_entries,
                [File_Name (name f)] @ logged @ [Match_Count (length entries)] @ logged')))"

section \<open>The claims, in the words of the specification\<close>

text \<open>
  A table of substrings with their labels, scanned in order: the label of the
  first entry one of whose substrings occurs in the text, or the empty string.
\<close>

fun spec_first_label :: "(string list \<times> string) list \<Rightarrow> string \<Rightarrow> string" where
  "spec_first_label [] t = []"
| "spec_first_label ((keys, label) # table) t =
     (if \<exists>k \<in> set keys. sublist k t then label else spec_first_label table t)"

definition spec_condition_table :: "(string list \<times> string) list" where
  "spec_condition_table =
     [([''like new''], ''Like New''), ([''used''], ''Used''),
      ([''full set'', ''fullset''], ''Full Set''), ([''mint''], ''Mint''),
      ([''new''], ''New''), ([''only watch''], ''Only Watch'')]"


text \<open>
  Rules tried in order: the first rule whose pattern is found in the text
  gives the result, computed from its first group; the default when no
  pattern is found.
\<close>

fun spec_first_match :: "(bool \<times> regex \<times> (string \<Rightarrow> 'a)) list \<Rightarrow> 'a \<Rightarrow> string \<Rightarrow> 'a" where
  "spec_first_match [] none t = none"
| "spec_first_match ((ic, r, f) # rules) none t =
     (case re_search ic r t of Some m \<Rightarrow> f (group 1 m) | None \<Rightarrow> spec_first_match rules none t)"

text \<open>
  The text the price rules are tried on: commas removed, lower case.
\<close>

definition normalise_price_text :: "string \<Rightarrow> string" where
  "normalise_price_text text = lower (filter (\<lambda>c. c \<noteq> CHR '','') text)"

text \<open>
  The price rules by name, in the order of the specification, each with its
  pattern and its factor. The first rule whose pattern is found in the text
  is the rule of the text, with the number it captured.
\<close>

datatype price_rule =
    Decimal_k | Decimal_m | Integer_k | Integer_m | Decimal_mill
  | Code_separator | Code_adjacent | Bare_digits

definition spec_price_patterns :: "(price_rule \<times> regex) list" where
  "spec_price_patterns =
     [(Decimal_k, price_decimal_k), (Decimal_m, price_decimal_m),
      (Integer_k, price_int_k), (Integer_m, price_int_m),
      (Decimal_mill, price_decimal_mill), (Code_separator, price_code_sep),
      (Code_adjacent, price_code), (Bare_digits, price_bare)]"

fun spec_first_rule :: "(price_rule \<times> regex) list \<Rightarrow> string \<Rightarrow> (price_rule \<times> string) option" where
  "spec_first_rule [] t = None"
| "spec_first_rule ((rule, r) # rules) t =
     (case re_search False r t of Some m \<Rightarrow> Some (rule, group 1 m)
      | None \<Rightarrow> spec_first_rule rules t)"

fun spec_factor :: "price_rule \<Rightarrow> int" where
  "spec_factor Decimal_k = 1000"
| "spec_factor Decimal_m = 1000000"
| "spec_factor Integer_k = 1000"
| "spec_factor Integer_m = 1000000"
| "spec_factor Decimal_mill = 1000000"
| "spec_factor Code_separator = 1"
| "spec_factor Code_adjacent = 1"
| "spec_factor Bare_digits = 1"

fun is_decimal_rule :: "price_rule \<Rightarrow> bool" where
  "is_decimal_rule Decimal_k = True"
| "is_decimal_rule Decimal_m = True"
| "is_decimal_rule Decimal_mill = True"
| "is_decimal_rule rule = False"

text \<open>The digits before the point of a decimal, and those after it.\<close>

definition integer_part :: "string \<Rightarrow> string" where
  "integer_part g = takeWhile (\<lambda>c. c \<noteq> CHR ''.'') g"

definition fraction_part :: "string \<Rightarrow> string" where
  "fraction_part g = drop (Suc (length (integer_part g))) g"

text \<open>
  The value of a number, written with or without a decimal point, times a
  factor, truncated to an integer: the product the specification names.
\<close>

definition spec_times :: "int \<Rightarrow> string \<Rightarrow> int" where
  "spec_times k g =
     (int_of_digits (integer_part g @ fraction_part g) * k) div 10 ^ length (fraction_part g)"

text \<open>
  The product as the program computes it for the decimal forms,
  \<^verbatim>\<open>int(float(m.group(1)) * k)\<close>.
\<close>

definition times_float :: "int \<Rightarrow> string \<Rightarrow> error + int" where
  "times_float k g = int_of_float (fmul (float_of_str g) k)"

text \<open>
  The price as claim C1 words it: the fourth rule is an integer and \<open>m\<close>, with
  no word boundary asked after the \<open>m\<close>, and every rule gives the value times
  its factor, truncated.
\<close>

definition claimed_int_m :: regex where
  "claimed_int_m = seqs [Grp 1 (digits_from 1), any_space, Lit ''m'']"

definition claimed_price_patterns :: "(price_rule \<times> regex) list" where
  "claimed_price_patterns =
     [(Decimal_k, price_decimal_k), (Decimal_m, price_decimal_m),
      (Integer_k, price_int_k), (Integer_m, claimed_int_m),
      (Decimal_mill, price_decimal_mill), (Code_separator, price_code_sep),
      (Code_adjacent, price_code), (Bare_digits, price_bare)]"

definition claimed_price :: "string \<Rightarrow> int" where
  "claimed_price text =
     (case spec_first_rule claimed_price_patterns (normalise_price_text text) of
        None \<Rightarrow> 0
      | Some (rule, g) \<Rightarrow> spec_times (spec_factor rule) g)"

text \<open>A two-digit year: below 50 in the century of 2000, from 50 on in that of 1900.\<close>

definition spec_short_year :: "string \<Rightarrow> string" where
  "spec_short_year g =
     (let v = int_of_digits g in (if v < 50 then ''20'' else ''19'') @ pad2 v)"

definition spec_year_rules :: "(bool \<times> regex \<times> (string \<Rightarrow> string)) list" where
  "spec_year_rules =
     [(False, year_bare, \<lambda>g. g), (False, year_slash, \<lambda>g. g),
      (True, year_short, spec_short_year), (True, year_word, \<lambda>g. g)]"

text \<open>
  A transcript read as the specification reads it: some lines before the first
  header, then blocks of one header line and its continuation lines. The
  message of a block has the fields of its header, and for body the header's
  trailing text followed by the continuation lines, joined with newlines.
\<close>

definition spec_transcript :: "string list \<Rightarrow> (string \<times> string list) list \<Rightarrow> string list" where
  "spec_transcript pre blocks = pre @ concat (map (\<lambda>(h, cs). h # cs) blocks)"

definition spec_message :: "string \<times> string list \<Rightarrow> message" where
  "spec_message block =
     (case block of (h, cs) \<Rightarrow>
        (case header_match h of
           Some (d, t, s, b) \<Rightarrow> \<lparr>date = d, time = t, sender = s, body = join [CHR 0x0A] (b # cs)\<rparr>
         | None \<Rightarrow> \<lparr>date = [], time = [], sender = [], body = []\<rparr>))"


text \<open>
  Forward attachment as the specification words it. A line yields a price or
  a year when its year is not empty or its price is not zero. The lines
  scanned after a line are the first five that follow, up to the first that
  stops the scan; each of them that yields a price or a year gives a combined
  entry. Only a line that contains the identifier and yields neither a price
  nor a year is followed in this way.
\<close>

definition yields_price_or_year :: "string \<Rightarrow> bool" where
  "yields_price_or_year l =
     (parse_year l \<noteq> [] \<or> (case parse_price l of Inl e \<Rightarrow> False | Inr p \<Rightarrow> p \<noteq> 0))"

definition spec_scanned :: "string \<Rightarrow> string list \<Rightarrow> string list" where
  "spec_scanned pid following = takeWhile (\<lambda>f. \<not> stops_scan pid f) (take 5 following)"

definition spec_combined :: "string \<Rightarrow> string \<Rightarrow> string list \<Rightarrow> string list" where
  "spec_combined pid line following =
     map (\<lambda>f. line @ '' // '' @ f) (filter yields_price_or_year (spec_scanned pid following))"

fun spec_attach :: "string \<Rightarrow> string list \<Rightarrow> string list" where
  "spec_attach pid [] = []"
| "spec_attach pid (line # following) =
     (if contains_pid pid line \<and> \<not> yields_price_or_year line
      then spec_combined pid line following else [])
     @ spec_attach pid following"

text \<open>
  A text contains a word, case ignored, when the lower-cased word is a
  substring of the lower-cased text. The noise words of the assembly stage.
\<close>

definition spec_contains_ci :: "string \<Rightarrow> string \<Rightarrow> bool" where
  "spec_contains_ci k s = sublist (lower k) (lower s)"

definition spec_noise_words :: "string list" where
  "spec_noise_words = [''PHOTO'', ''omitted'', ''attached:'']"

section \<open>What a pattern matches\<close>

text \<open>
  \<open>sem ic r p u nxt cs\<close>: the pattern \<open>r\<close> matches the text \<open>u\<close> when \<open>p\<close> is the
  character before it and \<open>nxt\<close> the text after it, and captures the groups
  \<open>cs\<close>, the last one closed first. \<open>after p u\<close> is the character before the
  position reached when \<open>u\<close> has been read from a position after \<open>p\<close>.
\<close>

definition after :: "char option \<Rightarrow> string \<Rightarrow> char option" where
  "after p u = (if u = [] then p else Some (last u))"

fun sem :: "bool \<Rightarrow> regex \<Rightarrow> char option \<Rightarrow> string \<Rightarrow> string \<Rightarrow> (nat \<times> string) list \<Rightarrow> bool" where
  "sem ic Eps p u nxt cs = (u = [] \<and> cs = [])"
| "sem ic (Cls P) p u nxt cs = ((\<exists>c. u = [c] \<and> cls_match ic P c) \<and> cs = [])"
| "sem ic (Lit l) p u nxt cs = (list_all2 (chr_eq ic) l u \<and> cs = [])"
| "sem ic (Seq r1 r2) p u nxt cs =
     (\<exists>u1 u2 c1 c2. u = u1 @ u2 \<and> cs = c2 @ c1 \<and> sem ic r1 p u1 (u2 @ nxt) c1
        \<and> sem ic r2 (after p u1) u2 nxt c2)"
| "sem ic (Alt r1 r2) p u nxt cs = (sem ic r1 p u nxt cs \<or> sem ic r2 p u nxt cs)"
| "sem ic (Opt r) p u nxt cs = (sem ic r p u nxt cs \<or> (u = [] \<and> cs = []))"
| "sem ic (Rep P lo hi greedy) p u nxt cs =
     (lo \<le> length u \<and> (case hi of None \<Rightarrow> True | Some h \<Rightarrow> length u \<le> h)
      \<and> list_all (cls_match ic P) u \<and> cs = [])"
| "sem ic (Grp k r) p u nxt cs = (\<exists>c. cs = (k, u) # c \<and> sem ic r p u nxt c)"
| "sem ic WordB p u nxt cs = (u = [] \<and> cs = [] \<and> word_opt p \<noteq> word_opt (next_chr nxt))"
| "sem ic Bol p u nxt cs = (u = [] \<and> cs = [] \<and> p = None)"
| "sem ic Eol p u nxt cs = (u = [] \<and> cs = [] \<and> (nxt = [] \<or> nxt = [CHR 0x0A]))"

text \<open>
  A word occurs in a text as a whole word, case ignored, when it occurs at a
  position with a word boundary before it and one after it: on each side, a
  word character faces a character that is not one, or an end of the text.
\<close>

definition occurs_at :: "string \<Rightarrow> string \<Rightarrow> nat \<Rightarrow> bool" where
  "occurs_at w s n = (n + length w \<le> length s \<and> lower (take (length w) (drop n s)) = lower w)"

definition word_boundary_at :: "string \<Rightarrow> nat \<Rightarrow> bool" where
  "word_boundary_at s n = (word_opt (after None (take n s)) \<noteq> word_opt (next_chr (drop n s)))"

definition spec_whole_word :: "string \<Rightarrow> string \<Rightarrow> bool" where
  "spec_whole_word w s =
     (\<exists>n \<in> set [0 ..< Suc (length s)].
        occurs_at w s n \<and> word_boundary_at s n \<and> word_boundary_at s (n + length w))"

section \<open>Lemmas on strings\<close>

lemma is_in_sublist: "is_in pat s = sublist pat s"
  by (induction s) (simp_all add: sublist_Cons_right)

section \<open>The condition extractor\<close>

text \<open>
  Claim C6. For every entry text, the condition extractor scans the lower-cased
  text for the substrings "like new", "used", "full set" or "fullset", "mint",
  "new", "only watch", in this order, and returns the label of the first one
  that occurs, or the empty string when none does; "like new full set" gives
  "Like New".
\<close>

theorem parse_condition_priority:
  "parse_condition text = spec_first_label spec_condition_table (lower text)
   \<and> parse_condition ''like new full set'' = ''Like New''"
proof
  show "parse_condition text = spec_first_label spec_condition_table (lower text)"
    by (simp add: parse_condition_def spec_condition_table_def is_in_sublist Let_def)
  show "parse_condition ''like new full set'' = ''Like New''"
    by code_simp
qed

theorem parse_condition_priority_witness:
  "parse_condition ''Mint, Full Set 2021'' = ''Full Set''
   \<and> spec_first_label spec_condition_table (lower ''Mint, Full Set 2021'') = ''Full Set''"
proof -
  have "parse_condition ''Mint, Full Set 2021'' = ''Full Set''"
    by code_simp
  with parse_condition_priority [of "''Mint, Full Set 2021''"] show ?thesis
    by simp
qed

section \<open>The matcher finds what the patterns match\<close>

lemma after_Nil [simp]: "after p [] = p"
  by (simp add: after_def)

lemma after_Cons [simp]: "after p (u @ [c]) = Some c" "after p [c] = Some c"
  by (simp_all add: after_def)

lemma after_Cons_left: "after p (c # pre) = after (Some c) pre"
  by (simp add: after_def)

lemma after_append: "after (after p u) v = after p (u @ v)"
  by (simp add: after_def)

lemma advance_after: "n \<le> length rest \<Longrightarrow> advance n p rest = after p (take n rest)"
  by (cases n) (auto simp: advance_def after_def last_conv_nth min_def)

lemma set_rep_counts:
  "set (rep_counts lo hi g run) = {n. lo \<le> n \<and> n \<le> run \<and> (case hi of None \<Rightarrow> True | Some h \<Rightarrow> n \<le> h)}"
  by (auto simp: rep_counts_def Let_def split: option.splits)

lemma takeWhile_prefix_all:
  "n \<le> length (takeWhile P xs) \<longleftrightarrow> n \<le> length xs \<and> list_all P (take n xs)"
proof (induction xs arbitrary: n)
  case Nil
  then show ?case by simp
next
  case (Cons x xs)
  then show ?case by (cases n) auto
qed

lemma rmatch_sem:
  "(p', rest', caps') \<in> set (rmatch ic r (p, rest, caps)) \<longleftrightarrow>
     (\<exists>u cs. rest = u @ rest' \<and> caps' = cs @ caps \<and> p' = after p u \<and> sem ic r p u rest' cs)"
proof (induction r arbitrary: p rest caps p' rest' caps')
  case Eps
  show ?case by auto
next
  case (Cls P)
  show ?case by (cases rest) auto
next
  case (Lit l)
  show ?case
  proof
    assume "(p', rest', caps') \<in> set (rmatch ic (Lit l) (p, rest, caps))"
    then have a: "length l \<le> length rest" "list_all2 (chr_eq ic) l (take (length l) rest)"
      and b: "p' = advance (length l) p rest" "rest' = drop (length l) rest" "caps' = caps"
      by (auto split: if_splits)
    show "\<exists>u cs. rest = u @ rest' \<and> caps' = cs @ caps \<and> p' = after p u \<and> sem ic (Lit l) p u rest' cs"
      using a b by (intro exI [of _ "take (length l) rest"] exI [of _ "[]"]) (simp add: advance_after)
  next
    assume "\<exists>u cs. rest = u @ rest' \<and> caps' = cs @ caps \<and> p' = after p u \<and> sem ic (Lit l) p u rest' cs"
    then obtain u where u: "rest = u @ rest'" "caps' = caps" "p' = after p u" "list_all2 (chr_eq ic) l u"
      by auto
    then have "length l = length u" by (simp add: list_all2_lengthD)
    with u show "(p', rest', caps') \<in> set (rmatch ic (Lit l) (p, rest, caps))"
      by (simp add: advance_after)
  qed
next
  case (Seq r1 r2)
  show ?case
  proof
    assume "(p', rest', caps') \<in> set (rmatch ic (Seq r1 r2) (p, rest, caps))"
    then obtain p1 rest1 caps1 where
      m1: "(p1, rest1, caps1) \<in> set (rmatch ic r1 (p, rest, caps))" and
      m2: "(p', rest', caps') \<in> set (rmatch ic r2 (p1, rest1, caps1))"
      by auto
    from m1 Seq.IH(1) obtain u1 c1 where
      1: "rest = u1 @ rest1" "caps1 = c1 @ caps" "p1 = after p u1" "sem ic r1 p u1 rest1 c1"
      by blast
    from m2 Seq.IH(2) obtain u2 c2 where
      2: "rest1 = u2 @ rest'" "caps' = c2 @ caps1" "p' = after p1 u2" "sem ic r2 p1 u2 rest' c2"
      by blast
    show "\<exists>u cs. rest = u @ rest' \<and> caps' = cs @ caps \<and> p' = after p u \<and> sem ic (Seq r1 r2) p u rest' cs"
      using 1 2 by (intro exI [of _ "u1 @ u2"] exI [of _ "c2 @ c1"]) (auto simp: after_append)
  next
    assume "\<exists>u cs. rest = u @ rest' \<and> caps' = cs @ caps \<and> p' = after p u \<and> sem ic (Seq r1 r2) p u rest' cs"
    then obtain u1 u2 c1 c2 where
      s: "rest = (u1 @ u2) @ rest'" "caps' = (c2 @ c1) @ caps" "p' = after p (u1 @ u2)"
         "sem ic r1 p u1 (u2 @ rest') c1" "sem ic r2 (after p u1) u2 rest' c2"
      by auto
    have m1: "(after p u1, u2 @ rest', c1 @ caps) \<in> set (rmatch ic r1 (p, rest, caps))"
      using s Seq.IH(1) by auto
    have m2: "(p', rest', caps') \<in> set (rmatch ic r2 (after p u1, u2 @ rest', c1 @ caps))"
      using s Seq.IH(2) by (auto simp: after_append)
    from m1 m2 show "(p', rest', caps') \<in> set (rmatch ic (Seq r1 r2) (p, rest, caps))"
      by auto
  qed
next
  case (Alt r1 r2)
  then show ?case by auto
next
  case (Opt r)
  then show ?case by auto
next
  case (Rep P lo hi g)
  show ?case
  proof
    assume "(p', rest', caps') \<in> set (rmatch ic (Rep P lo hi g) (p, rest, caps))"
    then obtain n where n: "n \<in> set (rep_counts lo hi g (length (takeWhile (cls_match ic P) rest)))"
      and b: "p' = advance n p rest" "rest' = drop n rest" "caps' = caps"
      by auto
    from n have c: "lo \<le> n" "n \<le> length rest" "list_all (cls_match ic P) (take n rest)"
      "case hi of None \<Rightarrow> True | Some h \<Rightarrow> n \<le> h"
      by (auto simp: set_rep_counts takeWhile_prefix_all)
    show "\<exists>u cs. rest = u @ rest' \<and> caps' = cs @ caps \<and> p' = after p u \<and> sem ic (Rep P lo hi g) p u rest' cs"
      using b c by (intro exI [of _ "take n rest"] exI [of _ "[]"]) (auto simp: advance_after min_def split: option.splits)
  next
    assume "\<exists>u cs. rest = u @ rest' \<and> caps' = cs @ caps \<and> p' = after p u \<and> sem ic (Rep P lo hi g) p u rest' cs"
    then obtain u where u: "rest = u @ rest'" "caps' = caps" "p' = after p u" "lo \<le> length u"
      "case hi of None \<Rightarrow> True | Some h \<Rightarrow> length u \<le> h" "list_all (cls_match ic P) u"
      by auto
    then have "length u \<in> set (rep_counts lo hi g (length (takeWhile (cls_match ic P) rest)))"
      by (auto simp: set_rep_counts takeWhile_prefix_all)
    moreover have "advance (length u) p rest = p'" "drop (length u) rest = rest'"
      using u by (simp_all add: advance_after)
    ultimately show "(p', rest', caps') \<in> set (rmatch ic (Rep P lo hi g) (p, rest, caps))"
      using u(2) by (auto simp: image_iff intro!: bexI [of _ "length u"])
  qed
next
  case (Grp k r)
  show ?case
  proof
    assume "(p', rest', caps') \<in> set (rmatch ic (Grp k r) (p, rest, caps))"
    then obtain c1 where m: "(p', rest', c1) \<in> set (rmatch ic r (p, rest, caps))"
      and c: "caps' = (k, take (length rest - length rest') rest) # c1"
      by auto
    from m Grp.IH obtain u cs where
      1: "rest = u @ rest'" "c1 = cs @ caps" "p' = after p u" "sem ic r p u rest' cs"
      by blast
    show "\<exists>u cs. rest = u @ rest' \<and> caps' = cs @ caps \<and> p' = after p u \<and> sem ic (Grp k r) p u rest' cs"
      using 1 c by (intro exI [of _ u] exI [of _ "(k, u) # cs"]) auto
  next
    assume "\<exists>u cs. rest = u @ rest' \<and> caps' = cs @ caps \<and> p' = after p u \<and> sem ic (Grp k r) p u rest' cs"
    then obtain u c where u: "rest = u @ rest'" "caps' = ((k, u) # c) @ caps" "p' = after p u"
      "sem ic r p u rest' c"
      by auto
    then have "(p', rest', c @ caps) \<in> set (rmatch ic r (p, rest, caps))"
      using Grp.IH by blast
    then show "(p', rest', caps') \<in> set (rmatch ic (Grp k r) (p, rest, caps))"
      using u by (auto simp: image_iff intro!: bexI [of _ "(p', rest', c @ caps)"])
  qed
next
  case WordB
  show ?case by auto
next
  case Bol
  show ?case by auto
next
  case Eol
  show ?case by auto
qed


lemma match_at_Some_sem:
  assumes "match_at ic r p s = Some m"
  shows "\<exists>u nxt. s = u @ nxt \<and> sem ic r p u nxt m"
proof -
  from assms obtain p' rest' where "(p', rest', m) \<in> set (rmatch ic r (p, s, []))"
    by (auto simp: match_at_def split: list.splits)
  then show ?thesis
    by (auto simp: rmatch_sem)
qed

lemma match_at_None_sem:
  "match_at ic r p s = None \<longleftrightarrow> (\<forall>u nxt cs. s = u @ nxt \<longrightarrow> \<not> sem ic r p u nxt cs)"
proof
  assume "match_at ic r p s = None"
  then have e: "rmatch ic r (p, s, []) = []"
    by (auto simp: match_at_def split: list.splits)
  show "\<forall>u nxt cs. s = u @ nxt \<longrightarrow> \<not> sem ic r p u nxt cs"
  proof (intro allI impI notI)
    fix u nxt cs
    assume "s = u @ nxt" "sem ic r p u nxt cs"
    then have "(after p u, nxt, cs @ []) \<in> set (rmatch ic r (p, s, []))"
      unfolding rmatch_sem by blast
    with e show False by simp
  qed
next
  assume a: "\<forall>u nxt cs. s = u @ nxt \<longrightarrow> \<not> sem ic r p u nxt cs"
  have "rmatch ic r (p, s, []) = []"
  proof (cases "rmatch ic r (p, s, [])")
    case Nil
    then show ?thesis .
  next
    case (Cons x xs)
    obtain p' rest' caps' where x: "x = (p', rest', caps')" by (cases x)
    with Cons have "(p', rest', caps') \<in> set (rmatch ic r (p, s, []))" by simp
    with a show ?thesis by (auto simp: rmatch_sem)
  qed
  then show "match_at ic r p s = None"
    by (simp add: match_at_def)
qed

lemma search_from_Some_sem:
  "search_from ic r p s = Some m \<Longrightarrow>
     \<exists>pre u nxt. s = pre @ u @ nxt \<and> sem ic r (after p pre) u nxt m"
proof (induction s arbitrary: p)
  case Nil
  then show ?case
    using match_at_Some_sem [of ic r p "[]" m] by (auto intro: exI [of _ "[]"])
next
  case (Cons c s)
  show ?case
  proof (cases "match_at ic r p (c # s)")
    case (Some m')
    with Cons.prems have "m' = m" by simp
    with Some obtain u nxt where "c # s = u @ nxt" "sem ic r p u nxt m"
      using match_at_Some_sem by blast
    then show ?thesis
      by (intro exI [of _ "[]"] exI [of _ u] exI [of _ nxt]) simp
  next
    case None
    with Cons.prems have "search_from ic r (Some c) s = Some m" by simp
    from Cons.IH [OF this] obtain pre u nxt where
      "s = pre @ u @ nxt" "sem ic r (after (Some c) pre) u nxt m" by blast
    moreover have "after (Some c) pre = after p (c # pre)"
      by (simp add: after_Cons_left)
    ultimately show ?thesis
      by (intro exI [of _ "c # pre"] exI [of _ u] exI [of _ nxt]) simp
  qed
qed

lemma search_from_None_sem:
  "search_from ic r p s = None \<longleftrightarrow>
     (\<forall>pre u nxt cs. s = pre @ u @ nxt \<longrightarrow> \<not> sem ic r (after p pre) u nxt cs)"
proof (induction s arbitrary: p)
  case Nil
  show ?case by (simp add: match_at_None_sem)
next
  case (Cons c s)
  have split: "(\<forall>pre u nxt cs. c # s = pre @ u @ nxt \<longrightarrow> \<not> sem ic r (after p pre) u nxt cs) \<longleftrightarrow>
      (\<forall>u nxt cs. c # s = u @ nxt \<longrightarrow> \<not> sem ic r p u nxt cs) \<and>
      (\<forall>pre u nxt cs. s = pre @ u @ nxt \<longrightarrow> \<not> sem ic r (after (Some c) pre) u nxt cs)"
    (is "?L \<longleftrightarrow> ?A \<and> ?B")
  proof (intro iffI conjI)
    assume l: ?L
    show ?A using l [rule_format, of "[]"] by auto
    show ?B
    proof (intro allI impI)
      fix pre u nxt cs assume "s = pre @ u @ nxt"
      then have "c # s = (c # pre) @ u @ nxt" by simp
      from l [rule_format, OF this, of cs] show "\<not> sem ic r (after (Some c) pre) u nxt cs"
        by (simp add: after_Cons_left)
    qed
  next
    assume ab: "?A \<and> ?B"
    show ?L
    proof (intro allI impI)
      fix pre u nxt cs assume e: "c # s = pre @ u @ nxt"
      show "\<not> sem ic r (after p pre) u nxt cs"
      proof (cases pre)
        case Nil
        with e ab show ?thesis by auto
      next
        case (Cons d pre')
        with e have "s = pre' @ u @ nxt" "d = c" by auto
        with ab have "\<not> sem ic r (after (Some c) pre') u nxt cs" by blast
        with Cons \<open>d = c\<close> show ?thesis by (simp add: after_Cons_left)
      qed
    qed
  qed
  show ?case
  proof (cases "match_at ic r p (c # s)")
    case None
    then have a: ?A by (simp add: match_at_None_sem)
    have "search_from ic r p (c # s) = None \<longleftrightarrow> search_from ic r (Some c) s = None"
      using None by simp
    also have "\<dots> \<longleftrightarrow> ?B" by (rule Cons.IH)
    finally show ?thesis using a split by blast
  next
    case (Some m)
    then have "\<not> ?A" using match_at_None_sem [of ic r p "c # s"] by simp
    then have "\<not> ?L" using split by blast
    moreover have "search_from ic r p (c # s) \<noteq> None" using Some by simp
    ultimately show ?thesis by blast
  qed
qed

lemma found_search_sem:
  "found (re_search ic r s) \<longleftrightarrow>
     (\<exists>pre u nxt cs. s = pre @ u @ nxt \<and> sem ic r (after None pre) u nxt cs)"
  using search_from_None_sem [of ic r None s] by (auto simp: found_def re_search_def)

lemma re_search_Some_sem:
  "re_search ic r s = Some m \<Longrightarrow>
     \<exists>pre u nxt. s = pre @ u @ nxt \<and> sem ic r (after None pre) u nxt m"
  unfolding re_search_def by (rule search_from_Some_sem)

section \<open>The price extractor\<close>

lemma parse_price_by_rule:
  "parse_price text =
     (case spec_first_rule spec_price_patterns (normalise_price_text text) of
        None \<Rightarrow> Inr 0
      | Some (rule, g) \<Rightarrow>
          if is_decimal_rule rule then times_float (spec_factor rule) g
          else Inr (int_of_digits g * spec_factor rule))"
  by (simp add: parse_price_def spec_price_patterns_def normalise_price_text_def
      times_float_def Let_def split: option.splits)

lemma digit_val_nonneg: "0 \<le> digit_val c"
  by (simp add: digit_val_def split: option.splits if_splits)

lemma foldl_digits_nonneg: "0 \<le> n \<Longrightarrow> 0 \<le> foldl (\<lambda>n c. 10 * n + digit_val c) n s"
  by (induction s arbitrary: n) (simp_all add: digit_val_nonneg)

lemma int_of_digits_nonneg: "0 \<le> int_of_digits s"
  by (simp add: int_of_digits_def foldl_digits_nonneg)

lemma round_half_even_nonneg: "0 \<le> a \<Longrightarrow> 0 < b \<Longrightarrow> 0 \<le> round_half_even a b"
  by (simp add: round_half_even_def Let_def pos_imp_zdiv_nonneg_iff)

lemma to_double_nonneg:
  "to_double a b = Finite m p \<Longrightarrow> 0 \<le> a \<Longrightarrow> 0 < b \<Longrightarrow> 0 \<le> m"
  by (auto simp add: to_double_def Let_def round_half_even_nonneg split: if_splits)

lemma float_of_str_nonneg: "float_of_str s = Finite m p \<Longrightarrow> 0 \<le> m"
  by (auto simp add: float_of_str_def Let_def int_of_digits_nonneg dest!: to_double_nonneg)

lemma fmul_nonneg:
  "fmul x n = Finite m' p' \<Longrightarrow> 0 \<le> n \<Longrightarrow> (\<And>m p. x = Finite m p \<Longrightarrow> 0 \<le> m) \<Longrightarrow> 0 \<le> m'"
  by (cases x) (auto simp add: fmul_def split: if_splits dest!: to_double_nonneg)

lemma int_of_float_nonneg:
  "int_of_float x = Inr v \<Longrightarrow> (\<And>m p. x = Finite m p \<Longrightarrow> 0 \<le> m) \<Longrightarrow> 0 \<le> v"
  by (cases x) (auto simp add: int_of_float_def pos_imp_zdiv_nonneg_iff split: if_splits)

lemma price_of_float_nonneg:
  "int_of_float (fmul (float_of_str s) n) = Inr v \<Longrightarrow> 0 \<le> n \<Longrightarrow> 0 \<le> v"
  by (erule int_of_float_nonneg) (erule fmul_nonneg, simp, erule float_of_str_nonneg)

lemma parse_price_nonneg: "parse_price l = Inr p \<Longrightarrow> 0 \<le> p"
  by (auto simp add: parse_price_def Let_def int_of_digits_nonneg
      split: option.splits dest: price_of_float_nonneg)

















text \<open>
  The decimal forms are scaled in binary64, where the specification takes the
  value times the factor: the nearest double of 8.2, times 1000000, is below
  8200000, and that of 1.005, times 1000, below 1005.
\<close>

lemma parse_price_binary64:
  "parse_price ''8.2m'' = Inr 8199999 \<and> claimed_price ''8.2m'' = 8200000
   \<and> parse_price ''1.005k'' = Inr 1004 \<and> claimed_price ''1.005k'' = 1005"
  by code_simp

text \<open>
  Claim C1, as amended. For every entry text, after the commas are removed and
  the text is lower-cased, the price extractor tries its rules in the order
  decimal-k, decimal-m, integer-k with a word boundary after the k, integer-m
  with a word boundary after the m, decimal-mill, currency code, separator
  and at least five digits, currency code and at least five digits, a bare
  run of at least six digits. The first rule that matches determines the
  result: two texts with the same first rule and the same captured number
  have the same price. The result is 0 when no rule matches, the integer
  times 1000 for integer-k, times 1000000 for integer-m, and the value of the
  digits for the currency-code and bare forms. "1.5k" gives 1500, "1.5m" gives
  1500000, "250k" gives 250000, "USD: 123456" gives 123456, "999999" gives
  999999 and "abc" gives 0.
\<close>

theorem parse_price_rule_order:
  "(case spec_first_rule spec_price_patterns (normalise_price_text text) of
      None \<Rightarrow> parse_price text = Inr 0
    | Some (rule, g) \<Rightarrow>
        \<not> is_decimal_rule rule \<longrightarrow> parse_price text = Inr (int_of_digits g * spec_factor rule))
   \<and> (spec_first_rule spec_price_patterns (normalise_price_text text)
         = spec_first_rule spec_price_patterns (normalise_price_text text')
       \<longrightarrow> parse_price text = parse_price text')
   \<and> parse_price ''1.5k'' = Inr 1500 \<and> parse_price ''1.5m'' = Inr 1500000
   \<and> parse_price ''250k'' = Inr 250000 \<and> parse_price ''USD: 123456'' = Inr 123456
   \<and> parse_price ''999999'' = Inr 999999 \<and> parse_price ''abc'' = Inr 0"
proof (intro conjI)
  show "case spec_first_rule spec_price_patterns (normalise_price_text text) of
      None \<Rightarrow> parse_price text = Inr 0
    | Some (rule, g) \<Rightarrow>
        \<not> is_decimal_rule rule \<longrightarrow> parse_price text = Inr (int_of_digits g * spec_factor rule)"
    by (simp add: parse_price_by_rule split: option.splits)
  show "spec_first_rule spec_price_patterns (normalise_price_text text)
         = spec_first_rule spec_price_patterns (normalise_price_text text')
       \<longrightarrow> parse_price text = parse_price text'"
    by (simp add: parse_price_by_rule)
  show "parse_price ''1.5k'' = Inr 1500" by code_simp
  show "parse_price ''1.5m'' = Inr 1500000" by code_simp
  show "parse_price ''250k'' = Inr 250000" by code_simp
  show "parse_price ''USD: 123456'' = Inr 123456" by code_simp
  show "parse_price ''999999'' = Inr 999999" by code_simp
  show "parse_price ''abc'' = Inr 0" by code_simp
qed

theorem parse_price_rule_order_witness:
  "spec_first_rule spec_price_patterns (normalise_price_text ''HKD 1,250,000 full set'')
     = Some (Code_separator, ''1250000'')
   \<and> parse_price ''HKD 1,250,000 full set'' = Inr 1250000
   \<and> spec_first_rule spec_price_patterns (normalise_price_text ''ask 1.5 K, or 999999'')
     = spec_first_rule spec_price_patterns (normalise_price_text ''1.5k'')
   \<and> parse_price ''ask 1.5 K, or 999999'' = parse_price ''1.5k''"
proof -
  have rule: "spec_first_rule spec_price_patterns (normalise_price_text ''HKD 1,250,000 full set'')
     = Some (Code_separator, ''1250000'')"
    by code_simp
  have digits: "int_of_digits ''1250000'' * spec_factor Code_separator = 1250000"
    by code_simp
  have same: "spec_first_rule spec_price_patterns (normalise_price_text ''ask 1.5 K, or 999999'')
     = spec_first_rule spec_price_patterns (normalise_price_text ''1.5k'')"
    by code_simp
  from parse_price_rule_order [of "''HKD 1,250,000 full set''" "''HKD 1,250,000 full set''"] rule
  have "parse_price ''HKD 1,250,000 full set''
          = Inr (int_of_digits ''1250000'' * spec_factor Code_separator)"
    by simp
  with digits have "parse_price ''HKD 1,250,000 full set'' = Inr 1250000"
    by (simp only:)
  moreover from parse_price_rule_order [of "''ask 1.5 K, or 999999''" "''1.5k''"] same
  have "parse_price ''ask 1.5 K, or 999999'' = parse_price ''1.5k''"
    by blast
  ultimately show ?thesis
    using rule same by (simp only: simp_thms)
qed

text \<open>
  Claim C1 as stated names the fourth rule "integer-m", with no word boundary:
  on a case size such as "40mm" that rule would give 40000000, and the
  program gives 0.
\<close>

theorem parse_price_int_m_counterexample:
  "parse_price ''40mm'' = Inr 0 \<and> claimed_price ''40mm'' = 40000000"
  by code_simp




section \<open>The year extractor\<close>

text \<open>
  Claim C4. For every entry text, the year extractor tries, in this order, a
  bare four-digit token starting with 20, a 20YY/NN form, one or two digits
  followed by y or Y (below 50 "20xx", from 50 on "19xx"), and 20YY followed
  by "year" or "yr"; the first rule that matches gives the year, and the
  result is the empty string when none does. "45y" gives "2045", "85y" gives
  "1985", "2019/01" gives "2019", and a text with no year gives "".
\<close>

theorem parse_year_rule_order:
  "parse_year text = spec_first_match spec_year_rules [] text
   \<and> parse_year ''45y'' = ''2045'' \<and> parse_year ''85y'' = ''1985''
   \<and> parse_year ''2019/01'' = ''2019'' \<and> parse_year ''full set, blue dial'' = []"
proof (intro conjI)
  show "parse_year text = spec_first_match spec_year_rules [] text"
    by (simp add: parse_year_def spec_year_rules_def spec_short_year_def Let_def
        split: option.splits)
  show "parse_year ''45y'' = ''2045''" by code_simp
  show "parse_year ''85y'' = ''1985''" by code_simp
  show "parse_year ''2019/01'' = ''2019''" by code_simp
  show "parse_year ''full set, blue dial'' = []" by code_simp
qed

theorem parse_year_rule_order_witness:
  "parse_year ''5711 7Y old'' = ''2007''
   \<and> spec_first_match spec_year_rules [] ''5711 7Y old'' = ''2007''"
proof -
  have "parse_year ''5711 7Y old'' = ''2007''"
    by code_simp
  with parse_year_rule_order [of "''5711 7Y old''"] show ?thesis
    by simp
qed

section \<open>The tokenizer\<close>

lemma join_snoc: "join sep (b # cs @ [c]) = join sep (b # cs) @ sep @ c"
  by (induction cs arbitrary: b) simp_all

lemma join_foldl: "join sep (b # cs) = foldl (\<lambda>acc c. acc @ sep @ c) b cs"
  by (induction cs arbitrary: b rule: rev_induct) (simp_all add: join_snoc)

lemma tokenize_loop_continuation:
  "\<forall>c \<in> set cs. header_match c = None \<Longrightarrow>
     tokenize_loop msgs (Some m) (cs @ rest)
       = tokenize_loop msgs (Some (m\<lparr>body := foldl (\<lambda>acc c. acc @ [CHR 0x0A] @ c) (body m) cs\<rparr>)) rest"
  by (induction cs arbitrary: m) simp_all

lemma tokenize_loop_preamble:
  "\<forall>l \<in> set pre. header_match l = None \<Longrightarrow>
     tokenize_loop msgs None (pre @ rest) = tokenize_loop msgs None rest"
  by (induction pre) simp_all

lemma tokenize_loop_blocks:
  "\<forall>(h, cs) \<in> set blocks. header_match h \<noteq> None \<and> (\<forall>c \<in> set cs. header_match c = None) \<Longrightarrow>
     tokenize_loop msgs cur (concat (map (\<lambda>(h, cs). h # cs) blocks))
       = msgs @ (case cur of None \<Rightarrow> [] | Some m \<Rightarrow> [m]) @ map spec_message blocks"
proof (induction blocks arbitrary: msgs cur)
  case Nil
  show ?case by (simp split: option.splits)
next
  case (Cons block blocks)
  obtain h cs where block: "block = (h, cs)" by (cases block)
  with Cons.prems obtain d t s b where h: "header_match h = Some (d, t, s, b)"
    and cs: "\<forall>c \<in> set cs. header_match c = None"
    by auto
  from Cons.prems have rest:
    "\<forall>(h, cs) \<in> set blocks. header_match h \<noteq> None \<and> (\<forall>c \<in> set cs. header_match c = None)"
    by simp
  let ?msgs = "case cur of None \<Rightarrow> msgs | Some m \<Rightarrow> msgs @ [m]"
  let ?m = "\<lparr>date = d, time = t, sender = s, body = b\<rparr>"
  let ?tail = "concat (map (\<lambda>(h, cs). h # cs) blocks)"
  have "tokenize_loop msgs cur (concat (map (\<lambda>(h, cs). h # cs) (block # blocks)))
          = tokenize_loop ?msgs (Some ?m) (cs @ ?tail)"
    using h block by simp
  also have "\<dots> = tokenize_loop ?msgs
      (Some (?m\<lparr>body := foldl (\<lambda>acc c. acc @ [CHR 0x0A] @ c) (body ?m) cs\<rparr>)) ?tail"
    using cs by (rule tokenize_loop_continuation)
  also have "\<dots> = ?msgs @ [spec_message block] @ map spec_message blocks"
    using h block by (simp add: Cons.IH [OF rest] spec_message_def join_foldl)
  finally show ?case
    by (simp split: option.splits)
qed

text \<open>
  Claim C3. When the lines of a transcript are some non-header lines followed
  by N blocks, each a valid header line and zero or more non-header
  continuation lines, the tokenizer produces exactly the N messages of the
  blocks, in transcript order: the body of each is the header's trailing text
  followed by its continuation lines, joined with newlines. The lines before
  the first header are discarded, and the last open message is closed at the
  end of the input.
\<close>

theorem tokenize_blocks:
  assumes "\<forall>l \<in> set pre. header_match l = None"
    and "\<forall>(h, cs) \<in> set blocks. header_match h \<noteq> None \<and> (\<forall>c \<in> set cs. header_match c = None)"
    and "splitlines content = spec_transcript pre blocks"
  shows "tokenize content = map spec_message blocks \<and> length (tokenize content) = length blocks"
proof -
  have "tokenize content = tokenize_loop [] None (pre @ concat (map (\<lambda>(h, cs). h # cs) blocks))"
    using assms(3) by (simp add: tokenize_def spec_transcript_def)
  also have "\<dots> = tokenize_loop [] None (concat (map (\<lambda>(h, cs). h # cs) blocks))"
    using assms(1) by (rule tokenize_loop_preamble)
  also have "\<dots> = map spec_message blocks"
    using assms(2) by (simp add: tokenize_loop_blocks)
  finally show ?thesis by simp
qed

theorem tokenize_blocks_witness:
  "list_all (\<lambda>l. header_match l = None) [''Messages are end-to-end encrypted'']
   \<and> list_all (\<lambda>(h, cs). header_match h \<noteq> None \<and> list_all (\<lambda>c. header_match c = None) cs)
        [(''[1/2/23, 1:05 PM] Al: WTS 5711'', [''2020 full set'', ''250k'']),
         (''[1/2/23, 1:06:10 pm] Bo: noted: thanks'', [])]
   \<and> splitlines (''Messages are end-to-end encrypted\<newline>[1/2/23, 1:05 PM] Al: WTS 5711\<newline>''
          @ ''2020 full set\<newline>250k\<newline>[1/2/23, 1:06:10 pm] Bo: noted: thanks\<newline>'')
       = spec_transcript [''Messages are end-to-end encrypted'']
           [(''[1/2/23, 1:05 PM] Al: WTS 5711'', [''2020 full set'', ''250k'']),
            (''[1/2/23, 1:06:10 pm] Bo: noted: thanks'', [])]
   \<and> tokenize (''Messages are end-to-end encrypted\<newline>[1/2/23, 1:05 PM] Al: WTS 5711\<newline>''
          @ ''2020 full set\<newline>250k\<newline>[1/2/23, 1:06:10 pm] Bo: noted: thanks\<newline>'')
       = [\<lparr>date = ''1/2/23'', time = ''1:05 PM'', sender = ''Al'',
            body = ''WTS 5711\<newline>2020 full set\<newline>250k''\<rparr>,
          \<lparr>date = ''1/2/23'', time = ''1:06:10 pm'', sender = ''Bo'', body = ''noted: thanks''\<rparr>]"
proof -
  let ?pre = "[''Messages are end-to-end encrypted'']"
  let ?blocks = "[(''[1/2/23, 1:05 PM] Al: WTS 5711'', [''2020 full set'', ''250k'']),
                  (''[1/2/23, 1:06:10 pm] Bo: noted: thanks'', [])]"
  let ?content = "''Messages are end-to-end encrypted\<newline>[1/2/23, 1:05 PM] Al: WTS 5711\<newline>''
          @ ''2020 full set\<newline>250k\<newline>[1/2/23, 1:06:10 pm] Bo: noted: thanks\<newline>''"
  have pre: "list_all (\<lambda>l. header_match l = None) ?pre"
    by code_simp
  have blocks: "list_all (\<lambda>(h, cs). header_match h \<noteq> None \<and> list_all (\<lambda>c. header_match c = None) cs)
                  ?blocks"
    by code_simp
  have lines: "splitlines ?content = spec_transcript ?pre ?blocks"
    by code_simp
  have msgs: "map spec_message ?blocks
       = [\<lparr>date = ''1/2/23'', time = ''1:05 PM'', sender = ''Al'',
            body = ''WTS 5711\<newline>2020 full set\<newline>250k''\<rparr>,
          \<lparr>date = ''1/2/23'', time = ''1:06:10 pm'', sender = ''Bo'', body = ''noted: thanks''\<rparr>]"
    by code_simp
  have pre': "\<forall>l \<in> set ?pre. header_match l = None"
    using pre by (simp only: list_all_iff)
  have blocks': "\<forall>(h, cs) \<in> set ?blocks.
                   header_match h \<noteq> None \<and> (\<forall>c \<in> set cs. header_match c = None)"
    using blocks by (simp only: list_all_iff)
  from tokenize_blocks [OF pre' blocks' lines] have "tokenize ?content = map spec_message ?blocks"
    by (rule conjunct1)
  with msgs pre blocks lines show ?thesis
    by (simp only: simp_thms)
qed

section \<open>Reading a transcript fails\<close>

lemma extraction_loop_append:
  "fst (extraction_loop (xs @ ys) pid) = fst (extraction_loop xs pid) @ fst (extraction_loop ys pid)"
  by (induction xs) (auto split: prod.splits)

lemma extraction_loop_log_append:
  "snd (extraction_loop (xs @ ys) pid) = snd (extraction_loop xs pid) @ snd (extraction_loop ys pid)"
  by (induction xs) (auto split: prod.splits)

lemma process_chat_file_unreadable:
  "read_result f = Inl e \<Longrightarrow>
     process_chat_file f pid logger = ([], log_if logger [Error_Processing (path_str f) e, Traceback e])"
  by (simp add: process_chat_file_def)

text \<open>
  Claim C9. When the content of a transcript file cannot be read, the
  processing of that file returns the empty list of records, and it returns
  it as a value: the exception is caught inside. The failure is reported
  through the logger, with the path of the file and the cause (when a logger
  was passed, as the loop over the files does). The loop over the files goes
  on with the next file: its records are those of the files before and of the
  files after, and its log holds the two entries of the failure between theirs.
\<close>

theorem read_failure_recovered:
  assumes "read_result f = Inl e"
  shows "process_chat_file f pid logger
           = ([], if logger then [Error_Processing (path_str f) e, Traceback e] else [])
         \<and> fst (extraction_loop (before @ f # rest) pid)
           = fst (extraction_loop before pid) @ fst (extraction_loop rest pid)
         \<and> snd (extraction_loop (before @ f # rest) pid)
           = snd (extraction_loop before pid)
             @ [File_Name (name f), Error_Processing (path_str f) e, Traceback e, Match_Count 0]
             @ snd (extraction_loop rest pid)"
proof (intro conjI)
  show "process_chat_file f pid logger
          = ([], if logger then [Error_Processing (path_str f) e, Traceback e] else [])"
    using assms by (simp add: process_chat_file_unreadable log_if_def)
  have one: "process_chat_file f pid True = ([], [Error_Processing (path_str f) e, Traceback e])"
    using assms by (simp add: process_chat_file_unreadable log_if_def)
  show "fst (extraction_loop (before @ f # rest) pid)
          = fst (extraction_loop before pid) @ fst (extraction_loop rest pid)"
    using one by (simp add: extraction_loop_append split: prod.splits)
  show "snd (extraction_loop (before @ f # rest) pid)
          = snd (extraction_loop before pid)
            @ [File_Name (name f), Error_Processing (path_str f) e, Traceback e, Match_Count 0]
            @ snd (extraction_loop rest pid)"
    using one by (simp add: extraction_loop_log_append split: prod.splits)
qed

theorem read_failure_recovered_witness:
  "read_result \<lparr>path_str = ''chats/gone.txt'', name = ''gone.txt'', stem = ''gone'',
                 read_result = Inl (OSError ''No such file or directory'')\<rparr>
     = Inl (OSError ''No such file or directory'')
   \<and> process_chat_file
        \<lparr>path_str = ''chats/gone.txt'', name = ''gone.txt'', stem = ''gone'',
          read_result = Inl (OSError ''No such file or directory'')\<rparr> ''5711'' True
     = ([], [Error_Processing ''chats/gone.txt'' (OSError ''No such file or directory''),
             Traceback (OSError ''No such file or directory'')])
   \<and> fst (extraction_loop
        [\<lparr>path_str = ''chats/gone.txt'', name = ''gone.txt'', stem = ''gone'',
           read_result = Inl (OSError ''No such file or directory'')\<rparr>,
         \<lparr>path_str = ''chats/hk.txt'', name = ''hk.txt'', stem = ''hk'',
           read_result = Inr ''[1/2/23, 1:05 PM] Al: WTS 5711 2020 250k''\<rparr>] ''5711'')
     = fst (extraction_loop
        [\<lparr>path_str = ''chats/hk.txt'', name = ''hk.txt'', stem = ''hk'',
           read_result = Inr ''[1/2/23, 1:05 PM] Al: WTS 5711 2020 250k''\<rparr>] ''5711'')"
proof -
  let ?gone = "\<lparr>path_str = ''chats/gone.txt'', name = ''gone.txt'', stem = ''gone'',
                 read_result = Inl (OSError ''No such file or directory'')\<rparr>"
  let ?hk = "\<lparr>path_str = ''chats/hk.txt'', name = ''hk.txt'', stem = ''hk'',
               read_result = Inr ''[1/2/23, 1:05 PM] Al: WTS 5711 2020 250k''\<rparr>"
  have unreadable: "read_result ?gone = Inl (OSError ''No such file or directory'')"
    by simp
  have "fst (extraction_loop [] ''5711'') = []"
    by simp
  with read_failure_recovered [OF unreadable, of "''5711''" True "[]" "[?hk]"] unreadable
  show ?thesis
    by (simp del: extraction_loop.simps)
qed

section \<open>Forward attachment\<close>

lemma year_or_price_yields:
  "year_or_price l = Inr b \<Longrightarrow> b = yields_price_or_year l"
  "year_or_price l = Inl e \<Longrightarrow> parse_price l = Inl e"
  using parse_price_nonneg [of l]
  by (auto simp add: year_or_price_def yields_price_or_year_def split: if_splits sum.splits)

lemma price_or_year_yields:
  "price_or_year l = Inr b \<Longrightarrow> b = yields_price_or_year l"
  "price_or_year l = Inl e \<Longrightarrow> parse_price l = Inl e"
  using parse_price_nonneg [of l]
  by (auto simp add: price_or_year_def yields_price_or_year_def split: if_splits sum.splits)

lemma scan_following_spec:
  "case scan_following pid line fs of
     Inr rs \<Rightarrow> rs = map (\<lambda>f. line @ '' // '' @ f)
                     (filter yields_price_or_year (takeWhile (\<lambda>f. \<not> stops_scan pid f) fs))
   | Inl e \<Rightarrow> \<exists>l \<in> set fs. parse_price l = Inl e"
proof (induction fs)
  case Nil
  show ?case by simp
next
  case (Cons f fs)
  show ?case
  proof (cases "stops_scan pid f")
    case True
    then show ?thesis by simp
  next
    case False
    show ?thesis
    proof (cases "year_or_price f")
      case (Inl e)
      with False year_or_price_yields(2) [of f e] show ?thesis by simp
    next
      case (Inr b)
      with False year_or_price_yields(1) [of f b] Cons.IH show ?thesis
        by (cases b) (auto split: sum.splits)
    qed
  qed
qed

lemma attach_loop_spec:
  "case attach_loop pid ls of
     Inr rs \<Rightarrow> rs = spec_attach pid ls
   | Inl e \<Rightarrow> \<exists>l \<in> set ls. parse_price l = Inl e"
proof (induction ls)
  case Nil
  show ?case by simp
next
  case (Cons line rest)
  show ?case
  proof (cases "contains_pid pid line")
    case False
    with Cons.IH show ?thesis by (auto split: sum.splits)
  next
    case True
    show ?thesis
    proof (cases "price_or_year line")
      case (Inl e)
      with True price_or_year_yields(2) [of line e] show ?thesis by simp
    next
      case (Inr b)
      note b = price_or_year_yields(1) [OF Inr]
      show ?thesis
      proof (cases b)
        case True
        with \<open>contains_pid pid line\<close> Inr b Cons.IH show ?thesis
          by (auto split: sum.splits)
      next
        case False
        have scan: "case scan_following pid line (take 5 rest) of
            Inr rs \<Rightarrow> rs = spec_combined pid line rest
          | Inl e \<Rightarrow> \<exists>l \<in> set rest. parse_price l = Inl e"
          using scan_following_spec [where pid = pid and line = line and fs = "take 5 rest"]
          by (auto simp add: spec_combined_def spec_scanned_def split: sum.splits
              dest: in_set_takeD)
        with False \<open>contains_pid pid line\<close> Inr b Cons.IH show ?thesis
          by (auto split: sum.splits)
      qed
    qed
  qed
qed

text \<open>
  Claim C2. For every message body and identifier, forward attachment runs
  over the non-empty trimmed lines of the body and follows each line that
  contains the identifier as a whole word, case ignored, unless this line
  alone yields a non-zero price or a non-empty year. It scans at most the
  five lines that follow, stops at the first that matches the reference-code
  pattern and does not contain the identifier, and emits
  \<open>line // follow_line\<close> for each scanned line that yields a non-empty year or a
  non-zero price. The result is this list whenever the price extractor returns
  on every line; it raises only when the price extractor raises on a line.
  When the second of three lines stops the scan, nothing is combined: for the
  body \<open>Line A 5711 interested / 116500/XYZ other item / 2023 49000\<close> the result
  is empty.
\<close>

theorem attach_following_forward:
  "(case attach_following body_text pid of
      Inr rs \<Rightarrow> rs = spec_attach pid (body_lines body_text)
    | Inl e \<Rightarrow> \<exists>l \<in> set (body_lines body_text). parse_price l = Inl e)
   \<and> ((\<forall>l \<in> set (body_lines body_text). \<not> isl (parse_price l)) \<longrightarrow>
        attach_following body_text pid = Inr (spec_attach pid (body_lines body_text)))
   \<and> (stops_scan pid l2 \<longrightarrow> spec_attach pid [l1, l2, l3] = [])
   \<and> attach_following ''Line A 5711 interested\<newline>116500/XYZ other item\<newline>2023 49000'' ''5711''
       = Inr []"
proof (intro conjI impI)
  show total: "case attach_following body_text pid of
      Inr rs \<Rightarrow> rs = spec_attach pid (body_lines body_text)
    | Inl e \<Rightarrow> \<exists>l \<in> set (body_lines body_text). parse_price l = Inl e"
    unfolding attach_following_def by (rule attach_loop_spec)
  show "attach_following body_text pid = Inr (spec_attach pid (body_lines body_text))"
    if "\<forall>l \<in> set (body_lines body_text). \<not> isl (parse_price l)"
    using total that by (cases "attach_following body_text pid") auto
  show "spec_attach pid [l1, l2, l3] = []" if "stops_scan pid l2"
    using that by (simp add: spec_combined_def spec_scanned_def stops_scan_def)
  show "attach_following ''Line A 5711 interested\<newline>116500/XYZ other item\<newline>2023 49000'' ''5711''
       = Inr []"
    by code_simp
qed

theorem attach_following_forward_witness:
  "list_all (\<lambda>l. \<not> isl (parse_price l)) (body_lines ''WTS 5711 blue dial\<newline>\<newline>  2021 full set \<newline>250k\<newline>thanks'')
   \<and> attach_following ''WTS 5711 blue dial\<newline>\<newline>  2021 full set \<newline>250k\<newline>thanks'' ''5711''
       = Inr [''WTS 5711 blue dial // 2021 full set'', ''WTS 5711 blue dial // 250k'']
   \<and> stops_scan ''5711'' ''116500/XYZ other item''
   \<and> spec_attach ''5711'' [''Line A 5711 interested'', ''116500/XYZ other item'', ''2023 49000''] = []"
proof -
  let ?body = "''WTS 5711 blue dial\<newline>\<newline>  2021 full set \<newline>250k\<newline>thanks''"
  have returns: "list_all (\<lambda>l. \<not> isl (parse_price l)) (body_lines ?body)"
    by code_simp
  have stops: "stops_scan ''5711'' ''116500/XYZ other item''"
    by code_simp
  have spec: "spec_attach ''5711'' (body_lines ?body)
       = [''WTS 5711 blue dial // 2021 full set'', ''WTS 5711 blue dial // 250k'']"
    by code_simp
  note inst = attach_following_forward [of ?body "''5711''" "''116500/XYZ other item''"
      "''Line A 5711 interested''" "''2023 49000''"]
  from returns have "\<forall>l \<in> set (body_lines ?body). \<not> isl (parse_price l)"
    by (simp only: list_all_iff)
  with inst have "attach_following ?body ''5711'' = Inr (spec_attach ''5711'' (body_lines ?body))"
    by blast
  moreover from inst stops
  have "spec_attach ''5711'' [''Line A 5711 interested'', ''116500/XYZ other item'', ''2023 49000''] = []"
    by blast
  ultimately show ?thesis
    using returns stops spec by (simp only: simp_thms)
qed

section \<open>Entries and records\<close>

lemma list_all2_chr_eq: "list_all2 (chr_eq True) l u \<longleftrightarrow> lower u = lower l"
  by (induction l arbitrary: u) (auto simp add: chr_eq_def lower_def list_all2_Cons1)

lemma lower_append [simp]: "lower (a @ b) = lower a @ lower b"
  by (simp add: lower_def)

lemma length_lower [simp]: "length (lower s) = length s"
  by (simp add: lower_def)

lemma lower_eq_length: "lower a = lower b \<Longrightarrow> length a = length b"
  by (metis length_lower)

lemma sublist_lower:
  "sublist k (lower s) \<longleftrightarrow> (\<exists>pre u nxt. s = pre @ u @ nxt \<and> lower u = k)"
proof
  assume "sublist k (lower s)"
  then obtain a b where "map lower_chr s = a @ k @ b"
    by (auto simp add: sublist_def lower_def)
  then obtain pre r where s: "s = pre @ r" and r: "map lower_chr r = k @ b"
    by (metis map_eq_append_conv)
  from r obtain u nxt where "r = u @ nxt" "map lower_chr u = k"
    by (metis map_eq_append_conv)
  with s show "\<exists>pre u nxt. s = pre @ u @ nxt \<and> lower u = k"
    by (auto simp add: lower_def)
next
  assume "\<exists>pre u nxt. s = pre @ u @ nxt \<and> lower u = k"
  then show "sublist k (lower s)"
    unfolding sublist_def by (metis lower_append)
qed

lemma found_lit_ci:
  "found (re_search True (Lit l) s) \<longleftrightarrow> sublist (lower l) (lower s)"
  by (simp add: found_search_sem list_all2_chr_eq sublist_lower)

lemma found_alt:
  "found (re_search ic (Alt r1 r2) s) \<longleftrightarrow> found (re_search ic r1 s) \<or> found (re_search ic r2 s)"
  unfolding found_search_sem by (simp only: sem.simps) blast

lemma found_never: "\<not> found (re_search ic (Cls (\<lambda>_. False)) s)"
  by (simp add: found_search_sem cls_match_def)

lemma is_noise_words:
  "is_noise raw \<longleftrightarrow> (\<exists>k \<in> set spec_noise_words. spec_contains_ci k raw)"
  by (simp add: is_noise_def noise_def alts_def found_alt found_lit_ci found_never
      spec_noise_words_def spec_contains_ci_def)


lemma contains_pid_sem:
  "contains_pid pid s \<longleftrightarrow>
     (\<exists>pre u nxt. s = pre @ u @ nxt \<and> lower u = lower pid
        \<and> word_opt (after None pre) \<noteq> word_opt (next_chr (u @ nxt))
        \<and> word_opt (after None (pre @ u)) \<noteq> word_opt (next_chr nxt))"
  by (simp add: contains_pid_def whole_word_def seqs_def found_search_sem list_all2_chr_eq
      after_append) blast

lemma contains_pid_whole_word: "contains_pid pid s \<longleftrightarrow> spec_whole_word pid s"
proof
  assume "contains_pid pid s"
  then obtain pre u nxt where s: "s = pre @ u @ nxt" and u: "lower u = lower pid"
    and b1: "word_opt (after None pre) \<noteq> word_opt (next_chr (u @ nxt))"
    and b2: "word_opt (after None (pre @ u)) \<noteq> word_opt (next_chr nxt)"
    unfolding contains_pid_sem by blast
  from u have len: "length u = length pid" by (rule lower_eq_length)
  have "occurs_at pid s (length pre)"
    using u len by (simp add: occurs_at_def s)
  moreover have "word_boundary_at s (length pre)"
    using b1 by (simp add: word_boundary_at_def s)
  moreover have "word_boundary_at s (length pre + length pid)"
  proof -
    have "take (length pre + length pid) s = pre @ u"
      using len by (simp add: s)
    moreover have "drop (length pre + length pid) s = nxt"
      using len by (simp add: s)
    ultimately show ?thesis
      unfolding word_boundary_at_def using b2 by simp
  qed
  moreover have "length pre \<in> set [0 ..< Suc (length s)]"
    by (simp add: s)
  ultimately show "spec_whole_word pid s"
    unfolding spec_whole_word_def by blast
next
  assume "spec_whole_word pid s"
  then obtain n where n: "n + length pid \<le> length s"
    and u: "lower (take (length pid) (drop n s)) = lower pid"
    and b1: "word_boundary_at s n" and b2: "word_boundary_at s (n + length pid)"
    unfolding spec_whole_word_def occurs_at_def by blast
  define pre where "pre = take n s"
  define w where "w = take (length pid) (drop n s)"
  define nxt where "nxt = drop (length pid) (drop n s)"
  have un: "w @ nxt = drop n s"
    unfolding w_def nxt_def by (rule append_take_drop_id)
  have s: "s = pre @ w @ nxt"
    unfolding un pre_def by (rule append_take_drop_id [symmetric])
  have pu: "pre @ w = take (n + length pid) s"
    by (simp add: pre_def w_def take_add)
  have nx: "nxt = drop (n + length pid) s"
    by (simp add: nxt_def add.commute)
  have "lower w = lower pid"
    using u unfolding w_def .
  moreover have "word_opt (after None pre) \<noteq> word_opt (next_chr (w @ nxt))"
    using b1 unfolding word_boundary_at_def un pre_def .
  moreover have "word_opt (after None (pre @ w)) \<noteq> word_opt (next_chr nxt)"
    using b2 unfolding word_boundary_at_def pu nx .
  ultimately show "contains_pid pid s"
    unfolding contains_pid_sem using s by blast
qed

lemma contains_pid_sublist: "contains_pid pid s \<Longrightarrow> sublist (lower pid) (lower s)"
  unfolding contains_pid_sem sublist_def by (metis lower_append)


lemma set_dedupe: "set (dedupe seen es) \<subseteq> set es"
  by (induction es arbitrary: seen) auto

lemma split_segments_contain:
  "e \<in> set (split_segments body_text pid) \<Longrightarrow> contains_pid pid e"
  by (auto simp add: split_segments_def)

lemma spec_combined_lines:
  "e \<in> set (spec_combined pid line following) \<Longrightarrow>
     \<exists>follow \<in> set following. e = line @ '' // '' @ follow"
  by (auto simp add: spec_combined_def spec_scanned_def dest!: set_takeWhileD in_set_takeD)

lemma spec_attach_lines:
  "e \<in> set (spec_attach pid ls) \<Longrightarrow>
     \<exists>line \<in> set ls. \<exists>follow \<in> set ls. e = line @ '' // '' @ follow \<and> contains_pid pid line"
proof (induction ls)
  case Nil
  then show ?case by simp
next
  case (Cons l ls)
  from Cons.prems consider
    (here) "contains_pid pid l" "e \<in> set (spec_combined pid l ls)"
    | (later) "e \<in> set (spec_attach pid ls)"
    by (auto split: if_splits)
  then show ?case
  proof cases
    case here
    from spec_combined_lines [OF here(2)] here(1) show ?thesis by auto
  next
    case later
    from Cons.IH [OF later] show ?thesis by auto
  qed
qed

lemma attach_following_lines:
  assumes "attach_following body_text pid = Inr rs" "e \<in> set rs"
  shows "\<exists>line \<in> set (body_lines body_text). \<exists>follow \<in> set (body_lines body_text).
           e = line @ '' // '' @ follow \<and> contains_pid pid line"
proof -
  from assms(1) attach_loop_spec [where pid = pid and ls = "body_lines body_text"]
  have "rs = spec_attach pid (body_lines body_text)"
    by (simp add: attach_following_def)
  with assms(2) have "e \<in> set (spec_attach pid (body_lines body_text))"
    by simp
  then show ?thesis
    by (rule spec_attach_lines)
qed

lemma extract_message_entries_contain:
  assumes "extract_message_entries body_text pid = Inr entries" "e \<in> set entries"
  shows "contains_pid pid e
         \<or> (\<exists>line \<in> set (body_lines body_text). \<exists>follow \<in> set (body_lines body_text).
               e = line @ '' // '' @ follow \<and> contains_pid pid line)"
proof -
  from assms(1) obtain att where att: "attach_following body_text pid = Inr att"
    and entries: "entries = dedupe {} (split_segments body_text pid @ att)"
    by (auto simp add: extract_message_entries_def split: sum.splits)
  from assms(2) entries set_dedupe [of "{}" "split_segments body_text pid @ att"]
  have "e \<in> set (split_segments body_text pid) \<or> e \<in> set att"
    by auto
  then show ?thesis
    using split_segments_contain [of e body_text pid] attach_following_lines [OF att, of e]
    by blast
qed

lemma rows_of_raws_raw:
  "r \<in> set (fst (rows_of_raws chat_name pid m raws)) \<Longrightarrow>
     Raw_Line r \<in> set raws \<and> \<not> is_noise (Raw_Line r)"
proof (induction raws)
  case Nil
  then show ?case by simp
next
  case (Cons raw raws)
  then show ?case
    by (auto split: if_splits sum.splits prod.splits)
qed

lemma rows_of_msgs_raw:
  "r \<in> set (fst (rows_of_msgs chat_name pid ms)) \<Longrightarrow>
     \<exists>m \<in> set ms. \<exists>raws. extract_message_entries (body m) pid = Inr raws
        \<and> Raw_Line r \<in> set raws \<and> \<not> is_noise (Raw_Line r)"
proof (induction ms)
  case Nil
  then show ?case by simp
next
  case (Cons m ms)
  show ?case
  proof (cases "is_in (lower pid) (lower (body m))")
    case False
    with Cons show ?thesis by auto
  next
    case True
    show ?thesis
    proof (cases "extract_message_entries (body m) pid")
      case (Inl e)
      with True Cons.prems show ?thesis by simp
    next
      case (Inr raws)
      obtain rows err where rr: "rows_of_raws chat_name pid m raws = (rows, err)"
        by (cases "rows_of_raws chat_name pid m raws")
      from Cons.prems True Inr rr
      have "r \<in> set rows \<or> r \<in> set (fst (rows_of_msgs chat_name pid ms))"
        by (auto split: option.splits prod.splits)
      then show ?thesis
      proof
        assume "r \<in> set rows"
        with rr rows_of_raws_raw [of r chat_name pid m raws] Inr show ?thesis
          by auto
      next
        assume "r \<in> set (fst (rows_of_msgs chat_name pid ms))"
        from Cons.IH [OF this] show ?thesis by auto
      qed
    qed
  qed
qed

lemma process_chat_file_raw:
  assumes "r \<in> set (fst (process_chat_file f pid logger))"
  shows "\<exists>content m raws. read_result f = Inr content \<and> m \<in> set (tokenize content)
           \<and> extract_message_entries (body m) pid = Inr raws
           \<and> Raw_Line r \<in> set raws \<and> \<not> is_noise (Raw_Line r)"
proof (cases "read_result f")
  case (Inl e)
  with assms show ?thesis by (simp add: process_chat_file_def)
next
  case (Inr content)
  with assms have "r \<in> set (fst (rows_of_msgs (stem f) pid (tokenize content)))"
    by (auto simp add: process_chat_file_def Let_def split: prod.splits option.splits)
  from rows_of_msgs_raw [OF this] Inr show ?thesis by auto
qed


text \<open>
  Claim C7. An entry is noise exactly when its text contains, case ignored,
  one of "PHOTO", "omitted" and "attached:". The assembly stage passes over a
  noise entry: the records are those of the remaining entries, so no record
  comes from it, and no record of a transcript has a noise word in its raw
  line. An entry that contains the identifier followed by " photo omitted"
  is noise.
\<close>

theorem noise_entries_dropped:
  "(is_noise raw \<longleftrightarrow> (\<exists>k \<in> set spec_noise_words. spec_contains_ci k raw))
   \<and> (is_noise raw \<longrightarrow>
        rows_of_raws chat_name pid m (raw # raws) = rows_of_raws chat_name pid m raws)
   \<and> (\<forall>r \<in> set (fst (process_chat_file f pid logger)).
        \<forall>k \<in> set spec_noise_words. \<not> spec_contains_ci k (Raw_Line r))
   \<and> is_noise (before @ pid @ '' photo omitted'' @ behind)"
proof (intro conjI impI ballI)
  show "is_noise raw \<longleftrightarrow> (\<exists>k \<in> set spec_noise_words. spec_contains_ci k raw)"
    by (rule is_noise_words)
  show "rows_of_raws chat_name pid m (raw # raws) = rows_of_raws chat_name pid m raws"
    if "is_noise raw"
    using that by simp
  show "\<not> spec_contains_ci k (Raw_Line r)"
    if "r \<in> set (fst (process_chat_file f pid logger))" "k \<in> set spec_noise_words" for r k
    using process_chat_file_raw [OF that(1)] that(2) by (auto simp add: is_noise_words)
  have "sublist (lower ''omitted'') (lower (before @ pid @ '' photo omitted'' @ behind))"
    unfolding sublist_lower
    by (rule exI [of _ "before @ pid @ '' photo ''"], rule exI [of _ "''omitted''"],
        rule exI [of _ behind]) simp
  then show "is_noise (before @ pid @ '' photo omitted'' @ behind)"
    by (auto simp add: is_noise_words spec_noise_words_def spec_contains_ci_def)
qed

theorem noise_entries_dropped_witness:
  "is_noise ''5711 photo omitted''
   \<and> spec_contains_ci ''PHOTO'' ''5711 photo omitted''
   \<and> rows_of_raws ''hk'' ''5711''
        \<lparr>date = ''1/2/23'', time = ''1:05 PM'', sender = ''Al'', body = ''5711 photo omitted''\<rparr>
        [''5711 photo omitted'', ''5711 2020 250k'']
      = rows_of_raws ''hk'' ''5711''
        \<lparr>date = ''1/2/23'', time = ''1:05 PM'', sender = ''Al'', body = ''5711 photo omitted''\<rparr>
        [''5711 2020 250k'']
   \<and> extract_message_entries ''5711 photo omitted\<newline>5711 2020 250k'' ''5711''
      = Inr [''5711 photo omitted'', ''5711 2020 250k'',
             ''5711 photo omitted // 5711 2020 250k'']
   \<and> map Raw_Line (fst (process_chat_file
        \<lparr>path_str = ''chats/hk.txt'', name = ''hk.txt'', stem = ''hk'',
          read_result = Inr ''[1/2/23, 1:05 PM] Al: 5711 photo omitted\<newline>5711 2020 250k''\<rparr>
        ''5711'' True))
      = [''5711 2020 250k'']
   \<and> list_all (\<lambda>r. list_all (\<lambda>k. \<not> spec_contains_ci k (Raw_Line r)) spec_noise_words)
        (fst (process_chat_file
          \<lparr>path_str = ''chats/hk.txt'', name = ''hk.txt'', stem = ''hk'',
            read_result = Inr ''[1/2/23, 1:05 PM] Al: 5711 photo omitted\<newline>5711 2020 250k''\<rparr>
          ''5711'' True))"
proof -
  let ?m = "\<lparr>date = ''1/2/23'', time = ''1:05 PM'', sender = ''Al'', body = ''5711 photo omitted''\<rparr>"
  let ?f = "\<lparr>path_str = ''chats/hk.txt'', name = ''hk.txt'', stem = ''hk'',
          read_result = Inr ''[1/2/23, 1:05 PM] Al: 5711 photo omitted\<newline>5711 2020 250k''\<rparr>"
  note inst = noise_entries_dropped [of "''5711 photo omitted''" "''hk''" "''5711''" ?m
      "[''5711 2020 250k'']" ?f True "[]" "[]"]
  have noisy: "is_noise ''5711 photo omitted''"
    by code_simp
  have word: "spec_contains_ci ''PHOTO'' ''5711 photo omitted''"
    by code_simp
  have entries: "extract_message_entries ''5711 photo omitted\<newline>5711 2020 250k'' ''5711''
      = Inr [''5711 photo omitted'', ''5711 2020 250k'',
             ''5711 photo omitted // 5711 2020 250k'']"
    by code_simp
  have rows: "map Raw_Line (fst (process_chat_file ?f ''5711'' True)) = [''5711 2020 250k'']"
    by code_simp
  from inst noisy have skipped: "rows_of_raws ''hk'' ''5711'' ?m [''5711 photo omitted'', ''5711 2020 250k'']
      = rows_of_raws ''hk'' ''5711'' ?m [''5711 2020 250k'']"
    by blast
  from inst have clean: "list_all (\<lambda>r. list_all (\<lambda>k. \<not> spec_contains_ci k (Raw_Line r)) spec_noise_words)
        (fst (process_chat_file ?f ''5711'' True))"
    unfolding list_all_iff by blast
  from noisy word skipped entries rows clean show ?thesis
    by (simp only: simp_thms)
qed

text \<open>
  Claim C10. Every entry the segment extractor returns contains the identifier
  as a whole word, case ignored: in the entry itself, or in the leading line
  of a combined entry \<open>line // follow\<close>, where both are lines of the body. So
  the raw line of every record contains the identifier, case ignored.
\<close>

theorem entries_contain_pid:
  "(extract_message_entries body_text pid = Inr entries \<longrightarrow>
      (\<forall>e \<in> set entries.
         spec_whole_word pid e
         \<or> (\<exists>line \<in> set (body_lines body_text). \<exists>follow \<in> set (body_lines body_text).
               e = line @ '' // '' @ follow \<and> spec_whole_word pid line)))
   \<and> (\<forall>r \<in> set (fst (process_chat_file f pid logger)). spec_contains_ci pid (Raw_Line r))"
proof (intro conjI impI ballI)
  show "spec_whole_word pid e
         \<or> (\<exists>line \<in> set (body_lines body_text). \<exists>follow \<in> set (body_lines body_text).
               e = line @ '' // '' @ follow \<and> spec_whole_word pid line)"
    if "extract_message_entries body_text pid = Inr entries" "e \<in> set entries" for e
    using extract_message_entries_contain [OF that]
    by (simp only: contains_pid_whole_word)
  show "spec_contains_ci pid (Raw_Line r)"
    if "r \<in> set (fst (process_chat_file f pid logger))" for r
  proof -
    from process_chat_file_raw [OF that] obtain content m raws
      where "read_result f = Inr content" "m \<in> set (tokenize content)"
        and raws: "extract_message_entries (body m) pid = Inr raws" "Raw_Line r \<in> set raws"
      by auto
    from extract_message_entries_contain [OF raws] consider
      (whole) "contains_pid pid (Raw_Line r)"
      | (combined) line follow where "Raw_Line r = line @ '' // '' @ follow" "contains_pid pid line"
      by blast
    then show ?thesis
    proof cases
      case whole
      then show ?thesis
        unfolding spec_contains_ci_def by (rule contains_pid_sublist)
    next
      case combined
      from combined(2) have "sublist (lower pid) (lower line)"
        by (rule contains_pid_sublist)
      then have "sublist (lower pid) (lower line @ lower ('' // '' @ follow))"
        by (simp add: sublist_append)
      with combined(1) show ?thesis
        by (simp add: spec_contains_ci_def)
    qed
  qed
qed

theorem entries_contain_pid_witness:
  "extract_message_entries ''WTS 5711a and 5711 blue // full set\<newline>2021 250k'' ''5711''
     = Inr [''WTS 5711a and 5711 blue'', ''WTS 5711a and 5711 blue // full set // 2021 250k'']
   \<and> list_all (\<lambda>e. spec_whole_word ''5711'' e
          \<or> list_ex (\<lambda>line. list_ex (\<lambda>follow. e = line @ '' // '' @ follow
                \<and> spec_whole_word ''5711'' line)
              (body_lines ''WTS 5711a and 5711 blue // full set\<newline>2021 250k''))
            (body_lines ''WTS 5711a and 5711 blue // full set\<newline>2021 250k''))
        [''WTS 5711a and 5711 blue'', ''WTS 5711a and 5711 blue // full set // 2021 250k'']
   \<and> map Raw_Line (fst (process_chat_file
        \<lparr>path_str = ''chats/hk.txt'', name = ''hk.txt'', stem = ''hk'',
          read_result = Inr ''[1/2/23, 1:05 PM] Al: wts 5711A and 5711 blue\<newline>2021 250k''\<rparr>
        ''5711a'' True))
      = [''wts 5711A and 5711 blue'', ''wts 5711A and 5711 blue // 2021 250k'']
   \<and> list_all (\<lambda>r. spec_contains_ci ''5711a'' (Raw_Line r))
        (fst (process_chat_file
          \<lparr>path_str = ''chats/hk.txt'', name = ''hk.txt'', stem = ''hk'',
            read_result = Inr ''[1/2/23, 1:05 PM] Al: wts 5711A and 5711 blue\<newline>2021 250k''\<rparr>
          ''5711a'' True))"
proof -
  let ?body = "''WTS 5711a and 5711 blue // full set\<newline>2021 250k''"
  let ?entries = "[''WTS 5711a and 5711 blue'', ''WTS 5711a and 5711 blue // full set // 2021 250k'']"
  let ?f = "\<lparr>path_str = ''chats/hk.txt'', name = ''hk.txt'', stem = ''hk'',
          read_result = Inr ''[1/2/23, 1:05 PM] Al: wts 5711A and 5711 blue\<newline>2021 250k''\<rparr>"
  have entries: "extract_message_entries ?body ''5711'' = Inr ?entries"
    by code_simp
  have rows: "map Raw_Line (fst (process_chat_file ?f ''5711a'' True))
      = [''wts 5711A and 5711 blue'', ''wts 5711A and 5711 blue // 2021 250k'']"
    by code_simp
  from entries_contain_pid [of ?body "''5711''" ?entries] entries
  have whole: "list_all (\<lambda>e. spec_whole_word ''5711'' e
          \<or> list_ex (\<lambda>line. list_ex (\<lambda>follow. e = line @ '' // '' @ follow
                \<and> spec_whole_word ''5711'' line) (body_lines ?body)) (body_lines ?body)) ?entries"
    unfolding list_all_iff list_ex_iff by blast
  from entries_contain_pid [where f = ?f and pid = "''5711a''" and logger = True]
  have raw: "list_all (\<lambda>r. spec_contains_ci ''5711a'' (Raw_Line r)) (fst (process_chat_file ?f ''5711a'' True))"
    unfolding list_all_iff by blast
  from entries whole rows raw show ?thesis
    by (simp only: simp_thms)
qed

end
